theory Spec2Isabelle
  imports Complex_Main "HOL-Library.Char_ord" "HOL-Library.List_Lexorder" "HOL-Library.Sublist"
begin

section \<open>Graphs as the explorer sees them\<close>

text \<open>
  Both \<^verbatim>\<open>graph_explorer.py\<close> and \<^verbatim>\<open>db_graph_explorer.py\<close> work on a networkx graph
  \<^verbatim>\<open>G\<close> that \<^verbatim>\<open>load_dot_file\<close> hands them.  They read it through four views only:
  \<^verbatim>\<open>G.nodes()\<close>, \<^verbatim>\<open>G.edges()\<close>, \<^verbatim>\<open>G.degree(n)\<close> and \<^verbatim>\<open>G.neighbors(n)\<close>.  A graph is
  therefore modelled by the sequence \<^verbatim>\<open>G.nodes()\<close> yields (networkx keeps insertion
  order), the sequence of pairs \<^verbatim>\<open>G.edges()\<close> yields, and a flag telling the directed
  classes from the undirected ones.  \<^verbatim>\<open>load_dot_file\<close> can return any of \<^verbatim>\<open>Graph\<close>,
  \<^verbatim>\<open>DiGraph\<close>, \<^verbatim>\<open>MultiGraph\<close> and \<^verbatim>\<open>MultiDiGraph\<close>; node names are strings.

  A Python \<^verbatim>\<open>str\<close> is a \<open>string\<close>, each \<open>char\<close> standing for one code point (so the
  texts covered are those of code points below 256); Python orders strings
  lexicographically by code point, as the order on \<open>string\<close> does.
\<close>

datatype error = IndexError | ZeroDivisionError | IntegrityError | OperationalError

record graph =
  directed :: bool
  nodes :: "string list"
  edges :: "(string \<times> string) list"

text \<open>
  What every networkx graph satisfies: the node view has no repetition (it is the key
  view of a dictionary) and both endpoints of every edge are nodes (\<^verbatim>\<open>add_edge\<close> adds
  missing endpoints to the node set).
\<close>

definition wf_graph :: "graph \<Rightarrow> bool" where
  "wf_graph G \<longleftrightarrow>
     distinct (nodes G) \<and>
     list_all (\<lambda>(u, v). u \<in> set (nodes G) \<and> v \<in> set (nodes G)) (edges G)"

text \<open>
  \<^verbatim>\<open>G.degree(n)\<close> counts edge ends at \<^verbatim>\<open>n\<close>: in every networkx class an edge
  \<^verbatim>\<open>(u, v)\<close> adds one to the degree of \<^verbatim>\<open>u\<close> and one to the degree of \<^verbatim>\<open>v\<close>, so a
  self-loop adds two, parallel edges of a multigraph count each, and in a directed
  graph the degree is in-degree plus out-degree.
\<close>

definition degree :: "graph \<Rightarrow> string \<Rightarrow> nat" where
  "degree G n =
     length (filter (\<lambda>(u, v). u = n) (edges G)) + length (filter (\<lambda>(u, v). v = n) (edges G))"

text \<open>
  \<^verbatim>\<open>G.neighbors(n)\<close>: the other ends of the edges at \<^verbatim>\<open>n\<close>, each once (successors only
  in a directed graph).  networkx raises for an \<^verbatim>\<open>n\<close> that is not a node; the callers
  modelled here pass nodes of \<^verbatim>\<open>G\<close> only.
\<close>

definition neighbors :: "graph \<Rightarrow> string \<Rightarrow> string list" where
  "neighbors G n =
     remdups (map snd (filter (\<lambda>(u, v). u = n) (edges G)) @
              (if directed G then [] else map fst (filter (\<lambda>(u, v). v = n) (edges G))))"

text \<open>\<^verbatim>\<open>G.subgraph(ns)\<close>: the nodes of \<^verbatim>\<open>G\<close> that are in \<^verbatim>\<open>ns\<close> and the edges between them.\<close>

definition subgraph :: "graph \<Rightarrow> string list \<Rightarrow> graph" where
  "subgraph G ns =
     \<lparr>directed = directed G,
      nodes = filter (\<lambda>n. n \<in> set ns) (nodes G),
      edges = filter (\<lambda>(u, v). u \<in> set ns \<and> v \<in> set ns) (edges G)\<rparr>"


section \<open>Python helpers\<close>

text \<open>
  \<^verbatim>\<open>xs[:n]\<close>: a negative \<^verbatim>\<open>n\<close> counts from the end of the list.
\<close>

definition py_slice_to :: "'a list \<Rightarrow> int \<Rightarrow> 'a list" where
  "py_slice_to xs n = (if 0 \<le> n then take (nat n) xs else take (length xs - nat (- n)) xs)"

text \<open>
  \<^verbatim>\<open>sorted(xs, key=k, reverse=True)\<close>: CPython reverses the list, sorts it with its
  stable sort and reverses the result, so that elements with equal keys keep the order
  they had in \<^verbatim>\<open>xs\<close>.
\<close>

definition sorted_reverse :: "('a \<Rightarrow> 'k::linorder) \<Rightarrow> 'a list \<Rightarrow> 'a list" where
  "sorted_reverse k xs = rev (sort_key k (rev xs))"

text \<open>
  \<^verbatim>\<open>random.choice(xs)\<close> raises \<^verbatim>\<open>IndexError\<close> on an empty sequence; otherwise it returns
  one of the elements.  The draw is the parameter \<open>r\<close>.
\<close>

definition random_choice :: "nat \<Rightarrow> 'a list \<Rightarrow> error + 'a" where
  "random_choice r xs = (if xs = [] then Inl IndexError else Inr (xs ! (r mod length xs)))"

text \<open>
  A Python \<^verbatim>\<open>set\<close> is modelled by the list of its elements, without repetition.  The
  order in which a set is iterated is not fixed by the language, so every loop over a
  set goes through a parameter \<open>it\<close> that rearranges the elements.
\<close>

definition set_add :: "'a \<Rightarrow> 'a list \<Rightarrow> 'a list" where
  "set_add x s = (if x \<in> set s then s else s @ [x])"


section \<open>Importance ranking: \<^verbatim>\<open>find_important_nodes\<close>\<close>

text \<open>
  The two centrality routines of networkx compute floating-point scores (and the
  betweenness one samples pivots at random), so they are parameters: each returns the
  \<^verbatim>\<open>(node, score)\<close> items of its result dictionary, or \<open>None\<close> when the call raises.
  Scores are rationals here; the degree scores are the integers \<^verbatim>\<open>G.degree()\<close> gives.
\<close>

record networkx =
  betweenness_centrality :: "graph \<Rightarrow> nat \<Rightarrow> (string \<times> rat) list option"
  pagerank :: "graph \<Rightarrow> (string \<times> rat) list option"

text \<open>\<^verbatim>\<open>dict(G.degree())\<close>, as its items in node order.\<close>

definition degree_dict :: "graph \<Rightarrow> (string \<times> rat) list" where
  "degree_dict G = map (\<lambda>n. (n, of_nat (degree G n))) (nodes G)"

text \<open>
  \<^verbatim>\<open>find_important_nodes\<close>, with what it prints: the lines written by \<^verbatim>\<open>print\<close>
  during the call, then the list returned.  Only the two \<^verbatim>\<open>except\<close> branches print.
\<close>

definition find_important_nodes_run ::
  "networkx \<Rightarrow> graph \<Rightarrow> string \<Rightarrow> int \<Rightarrow> string list \<times> string list"
where
  "find_important_nodes_run nx G method top_n =
     (let (printed, importance) =
            (if method = ''degree'' then ([], degree_dict G)
             else if method = ''betweenness'' then
               (case betweenness_centrality nx G (min 100 (length (nodes G))) of
                  Some scores \<Rightarrow> ([], scores)
                | None \<Rightarrow>
                    ([''Error computing betweenness centrality. Using degree instead.''],
                     degree_dict G))
             else if method = ''pagerank'' then
               (case pagerank nx G of
                  Some scores \<Rightarrow> ([], scores)
                | None \<Rightarrow>
                    ([''Error computing PageRank. Using degree instead.''], degree_dict G))
             else ([], degree_dict G));
          sorted_nodes = sorted_reverse snd importance
      in (printed, map fst (py_slice_to sorted_nodes top_n)))"

text \<open>The list \<^verbatim>\<open>find_important_nodes\<close> returns.\<close>

definition find_important_nodes :: "networkx \<Rightarrow> graph \<Rightarrow> string \<Rightarrow> int \<Rightarrow> string list" where
  "find_important_nodes nx G method top_n = snd (find_important_nodes_run nx G method top_n)"

text \<open>
  The order the ranking is checked against: \<open>a\<close> ranks before \<open>b\<close> when its degree is
  larger, or the degrees are equal and \<open>a\<close> comes first in \<^verbatim>\<open>G.nodes()\<close>.
\<close>

fun first_index :: "'a list \<Rightarrow> 'a \<Rightarrow> nat" where
  "first_index [] a = 0"
| "first_index (x # xs) a = (if x = a then 0 else Suc (first_index xs a))"

definition ranks_before :: "graph \<Rightarrow> string \<Rightarrow> string \<Rightarrow> bool" where
  "ranks_before G a b \<longleftrightarrow>
     degree G b < degree G a \<or>
     (degree G a = degree G b \<and> first_index (nodes G) a < first_index (nodes G) b)"

text \<open>A networkx installation in which both centrality routines fail.\<close>

definition nx_failing :: networkx where
  "nx_failing = \<lparr>betweenness_centrality = (\<lambda>G k. None), pagerank = (\<lambda>G. None)\<rparr>"

text \<open>The path \<^verbatim>\<open>a -- b -- c\<close> with an isolated node \<^verbatim>\<open>d\<close>, as an undirected graph.\<close>

definition path_graph :: graph where
  "path_graph =
     \<lparr>directed = False, nodes = [''a'', ''b'', ''c'', ''d''],
      edges = [(''a'', ''b''), (''b'', ''c'')]\<rparr>"


section \<open>Bounded neighbourhood: \<^verbatim>\<open>get_node_neighborhood\<close>\<close>

record bfs_state =
  nodes_to_include :: "string list"
  distance_map :: "string \<rightharpoonup> int"
  next_frontier :: "string list"

text \<open>
  The inner loop \<^verbatim>\<open>for neighbor in neighbors\<close>: it stops (\<^verbatim>\<open>break\<close>) as soon as the
  budget is reached.
\<close>

fun add_neighbors :: "int \<Rightarrow> int \<Rightarrow> string list \<Rightarrow> bfs_state \<Rightarrow> bfs_state" where
  "add_neighbors max_nodes current_distance [] s = s"
| "add_neighbors max_nodes current_distance (neighbor # rest) s =
     (if max_nodes \<le> int (length (nodes_to_include s)) then s
      else add_neighbors max_nodes current_distance rest
             (s\<lparr>next_frontier := set_add neighbor (next_frontier s),
                nodes_to_include := set_add neighbor (nodes_to_include s),
                distance_map := (distance_map s)(neighbor \<mapsto> current_distance)\<rparr>))"

text \<open>
  The loop \<^verbatim>\<open>for node in frontier\<close>.  The \<^verbatim>\<open>break\<close> above leaves the inner loop only,
  so every frontier node is still visited after the budget is reached.
\<close>

fun visit_frontier ::
  "(string list \<Rightarrow> string list) \<Rightarrow> graph \<Rightarrow> int \<Rightarrow> int \<Rightarrow> string list \<Rightarrow> bfs_state \<Rightarrow> bfs_state"
where
  "visit_frontier it G max_nodes current_distance [] s = s"
| "visit_frontier it G max_nodes current_distance (node # rest) s =
     (let nbrs = filter (\<lambda>n. n \<notin> set (nodes_to_include s)) (neighbors G node)
      in visit_frontier it G max_nodes current_distance rest
           (add_neighbors max_nodes current_distance (it nbrs) s))"

text \<open>The \<^verbatim>\<open>while\<close> loop; it returns \<^verbatim>\<open>nodes_to_include\<close> and \<^verbatim>\<open>distance_map\<close>.\<close>

function bfs_loop ::
  "(string list \<Rightarrow> string list) \<Rightarrow> graph \<Rightarrow> int \<Rightarrow> int \<Rightarrow> int \<Rightarrow> string list \<Rightarrow>
   string list \<Rightarrow> (string \<rightharpoonup> int) \<Rightarrow> string list \<times> (string \<rightharpoonup> int)"
where
  "bfs_loop it G max_distance max_nodes current_distance frontier included dmap =
     (if current_distance < max_distance \<and> int (length included) < max_nodes then
        (let current_distance' = current_distance + 1;
             s = visit_frontier it G max_nodes current_distance' (it frontier)
                   \<lparr>nodes_to_include = included, distance_map = dmap, next_frontier = []\<rparr>
         in if next_frontier s = [] then (nodes_to_include s, distance_map s)
            else bfs_loop it G max_distance max_nodes current_distance' (next_frontier s)
                   (nodes_to_include s) (distance_map s))
      else (included, dmap))"
  by pat_completeness auto
termination
  by (relation "measure (\<lambda>(it, G, max_distance, max_nodes, current_distance, rest).
                           nat (max_distance - current_distance))") auto

declare bfs_loop.simps [simp del]

definition get_node_neighborhood ::
  "(string list \<Rightarrow> string list) \<Rightarrow> nat \<Rightarrow> graph \<Rightarrow> string \<Rightarrow> int \<Rightarrow> int \<Rightarrow>
   error + (graph \<times> (string \<rightharpoonup> int))"
where
  "get_node_neighborhood it r G center_node max_distance max_nodes =
     (case (if center_node \<notin> set (nodes G) then random_choice r (nodes G)
            else Inr center_node) of
        Inl e \<Rightarrow> Inl e
      | Inr center \<Rightarrow>
          (let (included, dmap) =
                 bfs_loop it G max_distance max_nodes 0 [center] [center] [center \<mapsto> 0]
           in Inr (subgraph G included, dmap)))"



section \<open>The SQLite store\<close>

text \<open>
  The database file holds up to four tables.  A table is the list of its rows in
  insertion (rowid) order; the texts stored in \<^verbatim>\<open>graph_stats\<close> are \<^verbatim>\<open>str\<close> of a count
  or of a quotient and are kept as the numbers they print.  \<^verbatim>\<open>preprocess_graph\<close>
  creates \<^verbatim>\<open>nodes\<close> and \<^verbatim>\<open>edges\<close> as soon as it has connected, before anything can
  fail, and the two other tables later: they are \<open>None\<close> while they do not exist.
\<close>

record node_row =
  node_id :: string
  node_label :: string
  node_degree :: nat

record edge_row =
  edge_id :: nat
  edge_source :: string
  edge_target :: string

datatype stat = Count nat | Average rat

record db =
  nodes_tbl :: "node_row list"
  edges_tbl :: "edge_row list"
  important_nodes_tbl :: "string list option"
  graph_stats_tbl :: "(string \<times> stat) list option"

text \<open>A new file, after \<^verbatim>\<open>CREATE TABLE\<close> for \<^verbatim>\<open>nodes\<close> and \<^verbatim>\<open>edges\<close>.\<close>

definition fresh_db :: db where
  "fresh_db =
     \<lparr>nodes_tbl = [], edges_tbl = [], important_nodes_tbl = None, graph_stats_tbl = None\<rparr>"

text \<open>
  A connection sees its own uncommitted changes (\<open>pending\<close>); the file holds what was
  committed.  Python's \<^verbatim>\<open>sqlite3\<close> opens a transaction before every \<^verbatim>\<open>INSERT\<close>
  statement, also when \<^verbatim>\<open>executemany\<close> is given no row, and \<^verbatim>\<open>commit\<close> ends it.
  A \<^verbatim>\<open>CREATE TABLE\<close> outside a transaction is written at once; inside one it is part
  of the transaction.  When an exception ends the process, the open transaction is
  rolled back and the file keeps the committed state.
\<close>

record connection =
  committed :: db
  pending :: db
  in_transaction :: bool

definition connect :: "db option \<Rightarrow> connection" where
  "connect db_file =
     (case db_file of
        None \<Rightarrow> \<lparr>committed = fresh_db, pending = fresh_db, in_transaction = False\<rparr>
      | Some d \<Rightarrow> \<lparr>committed = d, pending = d, in_transaction = False\<rparr>)"

definition commit :: "connection \<Rightarrow> connection" where
  "commit c = c\<lparr>committed := pending c, in_transaction := False\<rparr>"

definition begin_transaction :: "connection \<Rightarrow> connection" where
  "begin_transaction c = c\<lparr>in_transaction := True\<rparr>"

definition create_table :: "(db \<Rightarrow> db) \<Rightarrow> connection \<Rightarrow> connection" where
  "create_table f c =
     (if in_transaction c then c\<lparr>pending := f (pending c)\<rparr>
      else c\<lparr>committed := f (committed c), pending := f (pending c)\<rparr>)"

text \<open>\<^verbatim>\<open>CREATE TABLE IF NOT EXISTS important_nodes\<close> and \<^verbatim>\<open>... graph_stats\<close>.\<close>

definition create_important_nodes :: "connection \<Rightarrow> connection" where
  "create_important_nodes =
     create_table (\<lambda>d. if important_nodes_tbl d = None then d\<lparr>important_nodes_tbl := Some []\<rparr>
                        else d)"

definition create_graph_stats :: "connection \<Rightarrow> connection" where
  "create_graph_stats =
     create_table (\<lambda>d. if graph_stats_tbl d = None then d\<lparr>graph_stats_tbl := Some []\<rparr> else d)"

text \<open>
  \<^verbatim>\<open>executemany("INSERT INTO nodes VALUES (?,?,?)", rows)\<close>: \<^verbatim>\<open>id\<close> is the primary key,
  so a row whose id is already in the table raises \<^verbatim>\<open>IntegrityError\<close>.
\<close>

fun insert_node_rows :: "node_row list \<Rightarrow> connection \<Rightarrow> (error + unit) \<times> connection" where
  "insert_node_rows [] c = (Inr (), c)"
| "insert_node_rows (r # rs) c =
     (if node_id r \<in> node_id ` set (nodes_tbl (pending c)) then (Inl IntegrityError, c)
      else insert_node_rows rs
             (c\<lparr>pending := (pending c)\<lparr>nodes_tbl := nodes_tbl (pending c) @ [r]\<rparr>\<rparr>))"

definition executemany_insert_nodes ::
  "node_row list \<Rightarrow> connection \<Rightarrow> (error + unit) \<times> connection"
where
  "executemany_insert_nodes rows c = insert_node_rows rows (begin_transaction c)"

text \<open>
  \<^verbatim>\<open>executemany("INSERT OR IGNORE INTO edges VALUES (?,?,?)", rows)\<close>: a row that would
  repeat the primary key \<^verbatim>\<open>id\<close> or the \<^verbatim>\<open>UNIQUE(source, target)\<close> pair is skipped
  without an error.  Foreign keys are declared but SQLite does not enforce them unless
  the connection asks for it, which this one does not; so the statement never raises
  \<^verbatim>\<open>IntegrityError\<close> and the \<^verbatim>\<open>except\<close> branches around it are dead.
\<close>

fun insert_or_ignore_edge_rows :: "edge_row list \<Rightarrow> connection \<Rightarrow> connection" where
  "insert_or_ignore_edge_rows [] c = c"
| "insert_or_ignore_edge_rows (r # rs) c =
     (if edge_id r \<in> edge_id ` set (edges_tbl (pending c)) \<or>
         (edge_source r, edge_target r)
           \<in> (\<lambda>e. (edge_source e, edge_target e)) ` set (edges_tbl (pending c))
      then insert_or_ignore_edge_rows rs c
      else insert_or_ignore_edge_rows rs
             (c\<lparr>pending := (pending c)\<lparr>edges_tbl := edges_tbl (pending c) @ [r]\<rparr>\<rparr>))"

definition executemany_insert_or_ignore_edges :: "edge_row list \<Rightarrow> connection \<Rightarrow> connection" where
  "executemany_insert_or_ignore_edges rows c = insert_or_ignore_edge_rows rows (begin_transaction c)"

text \<open>
  \<^verbatim>\<open>executemany("INSERT INTO important_nodes VALUES (?)", rows)\<close>, \<^verbatim>\<open>id\<close> the primary
  key.  A statement on a table that does not exist raises \<^verbatim>\<open>OperationalError\<close> when it
  is prepared.
\<close>

fun insert_important_rows ::
  "string list \<Rightarrow> string list \<Rightarrow> (error + unit) \<times> string list"
where
  "insert_important_rows [] tbl = (Inr (), tbl)"
| "insert_important_rows (r # rs) tbl =
     (if r \<in> set tbl then (Inl IntegrityError, tbl)
      else insert_important_rows rs (tbl @ [r]))"

definition executemany_insert_important ::
  "string list \<Rightarrow> connection \<Rightarrow> (error + unit) \<times> connection"
where
  "executemany_insert_important rows c =
     (case important_nodes_tbl (pending c) of
        None \<Rightarrow> (Inl OperationalError, c)
      | Some tbl \<Rightarrow>
          (case insert_important_rows rows tbl of
             (res, tbl') \<Rightarrow>
               (res, (begin_transaction c)\<lparr>pending :=
                        (pending c)\<lparr>important_nodes_tbl := Some tbl'\<rparr>\<rparr>)))"

text \<open>\<^verbatim>\<open>executemany("INSERT INTO graph_stats VALUES (?,?)", rows)\<close>, \<^verbatim>\<open>key\<close> the primary key.\<close>

fun insert_stat_rows ::
  "(string \<times> stat) list \<Rightarrow> (string \<times> stat) list \<Rightarrow> (error + unit) \<times> (string \<times> stat) list"
where
  "insert_stat_rows [] tbl = (Inr (), tbl)"
| "insert_stat_rows (r # rs) tbl =
     (if fst r \<in> fst ` set tbl then (Inl IntegrityError, tbl)
      else insert_stat_rows rs (tbl @ [r]))"

definition executemany_insert_stats ::
  "(string \<times> stat) list \<Rightarrow> connection \<Rightarrow> (error + unit) \<times> connection"
where
  "executemany_insert_stats rows c =
     (case graph_stats_tbl (pending c) of
        None \<Rightarrow> (Inl OperationalError, c)
      | Some tbl \<Rightarrow>
          (case insert_stat_rows rows tbl of
             (res, tbl') \<Rightarrow>
               (res, (begin_transaction c)\<lparr>pending :=
                        (pending c)\<lparr>graph_stats_tbl := Some tbl'\<rparr>\<rparr>)))"


section \<open>Ingestion: \<^verbatim>\<open>preprocess_graph\<close>\<close>

definition batch_size :: nat where
  "batch_size = 1000"

text \<open>\<^verbatim>\<open>str(node).replace("'", "''")\<close>: every apostrophe is doubled.\<close>

fun escape :: "string \<Rightarrow> string" where
  "escape [] = []"
| "escape (c # cs) = (if c = CHR 0x27 then c # c # escape cs else c # escape cs)"

text \<open>The tuple \<^verbatim>\<open>(node_id, node_label, G.degree(node))\<close> appended to \<^verbatim>\<open>nodes_data\<close>.\<close>

definition node_row_of :: "graph \<Rightarrow> string \<Rightarrow> node_row" where
  "node_row_of G node =
     \<lparr>node_id = escape node, node_label = escape node, node_degree = degree G node\<rparr>"

text \<open>
  The loop over \<^verbatim>\<open>G.nodes()\<close>: rows gather in \<^verbatim>\<open>nodes_data\<close> and are written and
  committed whenever a batch is full.  (The loop index is only printed.)
\<close>

fun insert_nodes_loop ::
  "graph \<Rightarrow> string list \<Rightarrow> node_row list \<Rightarrow> connection \<Rightarrow> (error + node_row list) \<times> connection"
where
  "insert_nodes_loop G [] nodes_data c = (Inr nodes_data, c)"
| "insert_nodes_loop G (node # rest) nodes_data c =
     (let nodes_data' = nodes_data @ [node_row_of G node]
      in if batch_size \<le> length nodes_data' then
           (case executemany_insert_nodes nodes_data' c of
              (Inl e, c') \<Rightarrow> (Inl e, c')
            | (Inr u, c') \<Rightarrow> insert_nodes_loop G rest [] (commit c'))
         else insert_nodes_loop G rest nodes_data' c)"

text \<open>The whole node phase: the loop, then \<^verbatim>\<open>if nodes_data:\<close> for the last batch.\<close>

definition insert_nodes :: "graph \<Rightarrow> connection \<Rightarrow> (error + unit) \<times> connection" where
  "insert_nodes G c =
     (case insert_nodes_loop G (nodes G) [] c of
        (Inl e, c') \<Rightarrow> (Inl e, c')
      | (Inr nodes_data, c') \<Rightarrow>
          if nodes_data \<noteq> [] then
            (case executemany_insert_nodes nodes_data c' of
               (Inl e, c'') \<Rightarrow> (Inl e, c'')
             | (Inr u, c'') \<Rightarrow> (Inr (), commit c''))
          else (Inr (), c'))"

text \<open>\<^verbatim>\<open>tuple(sorted([source_id, target_id]))\<close>; Python compares strings lexicographically.\<close>

definition sorted_pair :: "string \<Rightarrow> string \<Rightarrow> string \<times> string" where
  "sorted_pair s t = (if s \<le> t then (s, t) else (t, s))"

text \<open>
  The loop over \<^verbatim>\<open>enumerate(G.edges())\<close>.  An edge whose sorted endpoint pair is already
  in \<^verbatim>\<open>edge_set\<close> is skipped (\<^verbatim>\<open>continue\<close>); the others get the loop index as their id.
\<close>

fun insert_edges_loop ::
  "(nat \<times> string \<times> string) list \<Rightarrow> edge_row list \<Rightarrow> (string \<times> string) set \<Rightarrow> connection \<Rightarrow>
   edge_row list \<times> connection"
where
  "insert_edges_loop [] edges_data edge_set c = (edges_data, c)"
| "insert_edges_loop ((i, u, v) # rest) edges_data edge_set c =
     (let source_id = escape u;
          target_id = escape v;
          edge_pair = sorted_pair source_id target_id
      in if edge_pair \<in> edge_set then insert_edges_loop rest edges_data edge_set c
         else
           (let edge_set' = insert edge_pair edge_set;
                edges_data' = edges_data @
                  [\<lparr>edge_id = i, edge_source = source_id, edge_target = target_id\<rparr>]
            in if batch_size \<le> length edges_data' then
                 insert_edges_loop rest [] edge_set'
                   (commit (executemany_insert_or_ignore_edges edges_data' c))
               else insert_edges_loop rest edges_data' edge_set' c))"

text \<open>The whole edge phase: the loop, then \<^verbatim>\<open>if edges_data:\<close> for the last batch.\<close>

definition insert_edges :: "graph \<Rightarrow> connection \<Rightarrow> connection" where
  "insert_edges G c =
     (case insert_edges_loop (enumerate 0 (edges G)) [] {} c of
        (edges_data, c') \<Rightarrow>
          if edges_data \<noteq> [] then commit (executemany_insert_or_ignore_edges edges_data c')
          else c')"

text \<open>
  \<^verbatim>\<open>preprocess_graph\<close>, from the loaded graph on.  \<open>db_file\<close> is the content of the
  database file before the call (\<open>None\<close>: no such file); the result is what the call
  returns or raises, and the content of the file afterwards.  Creating the indices
  changes no row.
\<close>

definition preprocess_graph ::
  "networkx \<Rightarrow> graph \<Rightarrow> db option \<Rightarrow> (error + unit) \<times> db option"
where
  "preprocess_graph nx G db_file =
     (let db_file' = (if db_file \<noteq> None then None else db_file);
          c0 = connect db_file'
      in case insert_nodes G c0 of
           (Inl e, c1) \<Rightarrow> (Inl e, Some (committed c1))
         | (Inr u, c1) \<Rightarrow>
             (let c2 = insert_edges G c1;
                  important_nodes = find_important_nodes nx G ''degree'' 50;
                  c3 = create_important_nodes c2;
                  important_nodes_data = map escape important_nodes
              in case executemany_insert_important important_nodes_data c3 of
                   (Inl e, c4) \<Rightarrow> (Inl e, Some (committed c4))
                 | (Inr u, c4) \<Rightarrow>
                     (let c5 = create_graph_stats c4
                      in if length (nodes G) = 0 then
                           (Inl ZeroDivisionError, Some (committed c5))
                         else
                           (let stats =
                                  [(''total_nodes'', Count (length (nodes G))),
                                   (''total_edges'', Count (length (edges G))),
                                   (''avg_degree'',
                                      Average (of_nat (sum_list (map (degree G) (nodes G)))
                                                 / of_nat (length (nodes G))))]
                            in case executemany_insert_stats stats c5 of
                                 (Inl e, c6) \<Rightarrow> (Inl e, Some (committed c6))
                               | (Inr u, c6) \<Rightarrow> (Inr (), Some (committed (commit c6)))))))"


section \<open>Queries on the store\<close>

text \<open>
  SQLite's \<^verbatim>\<open>LIKE\<close>: \<^verbatim>\<open>%\<close> matches any run of characters, \<^verbatim>\<open>_\<close> any one character,
  and any other character matches itself, where the letters \<^verbatim>\<open>A\<close> to \<^verbatim>\<open>Z\<close> also match
  their lower-case forms (and conversely); there is no escape character in the query
  below.
\<close>

definition ascii_lower :: "char \<Rightarrow> char" where
  "ascii_lower c =
     (case map_of (zip ''ABCDEFGHIJKLMNOPQRSTUVWXYZ'' ''abcdefghijklmnopqrstuvwxyz'') c of
        Some l \<Rightarrow> l
      | None \<Rightarrow> c)"

fun like_match :: "string \<Rightarrow> string \<Rightarrow> bool" where
  "like_match [] [] = True"
| "like_match [] (c # cs) = False"
| "like_match (p # ps) [] = (p = CHR ''%'' \<and> like_match ps [])"
| "like_match (p # ps) (c # cs) =
     (if p = CHR ''%'' then like_match ps (c # cs) \<or> like_match (p # ps) cs
      else (p = CHR ''_'' \<or> ascii_lower p = ascii_lower c) \<and> like_match ps cs)"

text \<open>
  SQLite reads both the pattern and the text as C strings: each ends at its first NUL
  character, whatever follows it.
\<close>

definition c_string :: "string \<Rightarrow> string" where
  "c_string s = takeWhile (\<lambda>c. c \<noteq> CHR 0x00) s"

definition like :: "string \<Rightarrow> string \<Rightarrow> bool" where
  "like pattern s = like_match (c_string pattern) (c_string s)"

text \<open>
  SQLite refuses a \<^verbatim>\<open>LIKE\<close> pattern of more than 50000 bytes, once it evaluates the
  operator on a row.  A character is a code point below 256 here, of one byte in UTF-8
  when it is ASCII and of two otherwise.
\<close>

definition utf8_length :: "string \<Rightarrow> nat" where
  "utf8_length s = sum_list (map (\<lambda>c. if (of_char c :: nat) < 128 then 1 else 2) s)"

definition like_pattern_limit :: nat where
  "like_pattern_limit = 50000"

text \<open>
  \<^verbatim>\<open>search_nodes\<close>.  The statement orders by \<^verbatim>\<open>degree DESC\<close> and by nothing else, so
  the order of rows with equal degree is the order in which the engine visits them.
  That order is the parameter \<open>scan\<close>, applied to the table; the sort is stable.
\<close>

definition search_matches :: "(node_row list \<Rightarrow> node_row list) \<Rightarrow> db \<Rightarrow> string \<Rightarrow> node_row list" where
  "search_matches scan d query =
     remdups (filter (\<lambda>r. like (''%'' @ query @ ''%'') (node_label r)) (scan (nodes_tbl d)))"

text \<open>The matching rows after \<^verbatim>\<open>ORDER BY degree DESC\<close>, before the \<^verbatim>\<open>LIMIT\<close>.\<close>

definition search_ordered :: "(node_row list \<Rightarrow> node_row list) \<Rightarrow> db \<Rightarrow> string \<Rightarrow> node_row list" where
  "search_ordered scan d query =
     sort_key (\<lambda>r. - int (node_degree r)) (search_matches scan d query)"

definition search_nodes ::
  "(node_row list \<Rightarrow> node_row list) \<Rightarrow> db \<Rightarrow> string \<Rightarrow> error + node_row list"
where
  "search_nodes scan d query =
     (if query = [] \<or> length query < 2 then Inr []
      else if nodes_tbl d \<noteq> [] \<and> like_pattern_limit < utf8_length (''%'' @ query @ ''%'')
        then Inl OperationalError
      else Inr (take 10 (search_ordered scan d query)))"

text \<open>
  \<^verbatim>\<open>expand_node\<close>: the two \<^verbatim>\<open>SELECT DISTINCT\<close> statements, as the pair of their results.
  Neither has an \<^verbatim>\<open>ORDER BY\<close>, so only the set of rows returned is meaningful.
\<close>

definition expand_node :: "db \<Rightarrow> string \<Rightarrow> node_row list \<times> edge_row list" where
  "expand_node d q =
     (let neighbor_rows =
            remdups [n. n \<leftarrow> nodes_tbl d, e \<leftarrow> edges_tbl d,
                        (node_id n = edge_target e \<or> node_id n = edge_source e) \<and>
                        (edge_source e = q \<or> edge_target e = q)];
          edge_rows = remdups (filter (\<lambda>e. edge_source e = q \<or> edge_target e = q) (edges_tbl d))
      in (neighbor_rows, edge_rows))"


section \<open>Notions used in the statements\<close>

text \<open>
  The rows the edge loop hands to the database over a whole run, batches aside:
  \<^verbatim>\<open>edge_set\<close> is threaded through as in the loop.
\<close>

fun kept_edge_rows :: "(string \<times> string) set \<Rightarrow> (nat \<times> string \<times> string) list \<Rightarrow> edge_row list" where
  "kept_edge_rows edge_set [] = []"
| "kept_edge_rows edge_set ((i, u, v) # rest) =
     (if sorted_pair (escape u) (escape v) \<in> edge_set then kept_edge_rows edge_set rest
      else \<lparr>edge_id = i, edge_source = escape u, edge_target = escape v\<rparr> #
           kept_edge_rows (insert (sorted_pair (escape u) (escape v)) edge_set) rest)"

text \<open>The row written for the edge \<^verbatim>\<open>(u, v)\<close> met at index \<^verbatim>\<open>i\<close> of \<^verbatim>\<open>G.edges()\<close>.\<close>

definition edge_row_of :: "nat \<times> string \<times> string \<Rightarrow> edge_row" where
  "edge_row_of x =
     (case x of (i, u, v) \<Rightarrow> \<lparr>edge_id = i, edge_source = escape u, edge_target = escape v\<rparr>)"

text \<open>The unordered endpoint pair of an edge of the graph, and of an edge row.\<close>

definition endpoints :: "string \<times> string \<Rightarrow> string set" where
  "endpoints e = {fst e, snd e}"

definition row_endpoints :: "edge_row \<Rightarrow> string set" where
  "row_endpoints r = {edge_source r, edge_target r}"

text \<open>The persisted edge rows that have \<open>n\<close> as source or target.\<close>

definition incident_rows :: "db \<Rightarrow> string \<Rightarrow> edge_row list" where
  "incident_rows d n = filter (\<lambda>e. edge_source e = n \<or> edge_target e = n) (edges_tbl d)"

text \<open>
  A graph without self-loops in which no two edges of \<^verbatim>\<open>G.edges()\<close> join the same
  unordered pair of nodes.
\<close>

definition simple_graph :: "graph \<Rightarrow> bool" where
  "simple_graph G \<longleftrightarrow>
     list_all (\<lambda>(u, v). u \<noteq> v) (edges G) \<and> distinct (map endpoints (edges G))"

text \<open>What a successful pass leaves in the database file.\<close>

definition ingested :: "networkx \<Rightarrow> graph \<Rightarrow> db" where
  "ingested nx G =
     \<lparr>nodes_tbl = map (node_row_of G) (nodes G),
      edges_tbl = kept_edge_rows {} (enumerate 0 (edges G)),
      important_nodes_tbl = Some (map escape (find_important_nodes nx G ''degree'' 50)),
      graph_stats_tbl =
        Some [(''total_nodes'', Count (length (nodes G))),
              (''total_edges'', Count (length (edges G))),
              (''avg_degree'',
                 Average (of_nat (sum_list (map (degree G) (nodes G)))
                            / of_nat (length (nodes G))))]\<rparr>"



text \<open>A query without the two wildcard characters of \<^verbatim>\<open>LIKE\<close> and without NUL.\<close>

definition literal_query :: "string \<Rightarrow> bool" where
  "literal_query query \<longleftrightarrow>
     CHR ''%'' \<notin> set query \<and> CHR ''_'' \<notin> set query \<and> CHR 0x00 \<notin> set query"

text \<open>
  The order of a search result: by descending degree, rows of equal degree in the order
  they have in the list \<open>visited\<close>.
\<close>

definition search_order :: "node_row list \<Rightarrow> node_row \<Rightarrow> node_row \<Rightarrow> bool" where
  "search_order visited a b \<longleftrightarrow>
     node_degree b < node_degree a \<or>
     (node_degree a = node_degree b \<and> first_index visited a < first_index visited b)"

text \<open>
  The 1-hop neighbours of \<open>q\<close> in the store: the other end of every edge row at \<open>q\<close>,
  by the rule \<^verbatim>\<open>get_node_info\<close> counts neighbours with
  (\<^verbatim>\<open>CASE WHEN source = ? THEN target ELSE source END\<close>).
\<close>

definition neighbor_ids :: "db \<Rightarrow> string \<Rightarrow> string set" where
  "neighbor_ids d q =
     (\<lambda>e. if edge_source e = q then edge_target e else edge_source e) ` set (incident_rows d q)"


section \<open>Example graphs and stores\<close>

text \<open>No node at all: what an empty DOT graph loads as.\<close>

definition empty_graph :: graph where
  "empty_graph = \<lparr>directed = False, nodes = [], edges = []\<rparr>"

text \<open>Scenario B of the specification: the edge stream \<^verbatim>\<open>(A, B), (B, A)\<close>.\<close>

definition reversed_pair_graph :: graph where
  "reversed_pair_graph =
     \<lparr>directed = False, nodes = [''A'', ''B''], edges = [(''A'', ''B''), (''B'', ''A'')]\<rparr>"

text \<open>One node with a self-loop.\<close>

definition loop_graph :: graph where
  "loop_graph = \<lparr>directed = False, nodes = [''a''], edges = [(''a'', ''a'')]\<rparr>"

text \<open>
  Scenario C of the specification: node \<^verbatim>\<open>A\<close> and the edge \<^verbatim>\<open>(A, Z)\<close>.  networkx
  adds \<^verbatim>\<open>Z\<close> to the nodes when it adds the edge, which gives \<open>az_graph\<close>;
  \<open>dangling_graph\<close> is the same edge with \<^verbatim>\<open>Z\<close> kept out of the node view, a value no
  networkx graph has, to show what the ingestion code itself does with it.
\<close>

definition az_graph :: graph where
  "az_graph = \<lparr>directed = False, nodes = [''A'', ''Z''], edges = [(''A'', ''Z'')]\<rparr>"

definition dangling_graph :: graph where
  "dangling_graph = \<lparr>directed = False, nodes = [''A''], edges = [(''A'', ''Z'')]\<rparr>"

text \<open>The stores a pass over the edge stream of Scenario B and over the self-loop leave.\<close>

definition reversed_pair_db :: db where
  "reversed_pair_db =
     \<lparr>nodes_tbl = [\<lparr>node_id = ''A'', node_label = ''A'', node_degree = 2\<rparr>,
                  \<lparr>node_id = ''B'', node_label = ''B'', node_degree = 2\<rparr>],
      edges_tbl = [\<lparr>edge_id = 0, edge_source = ''A'', edge_target = ''B''\<rparr>],
      important_nodes_tbl = Some [''A'', ''B''],
      graph_stats_tbl = Some [(''total_nodes'', Count 2), (''total_edges'', Count 2),
                         (''avg_degree'', Average 2)]\<rparr>"

definition loop_db :: db where
  "loop_db =
     \<lparr>nodes_tbl = [\<lparr>node_id = ''a'', node_label = ''a'', node_degree = 2\<rparr>],
      edges_tbl = [\<lparr>edge_id = 0, edge_source = ''a'', edge_target = ''a''\<rparr>],
      important_nodes_tbl = Some [''a''],
      graph_stats_tbl = Some [(''total_nodes'', Count 1), (''total_edges'', Count 1),
                         (''avg_degree'', Average 2)]\<rparr>"

text \<open>The file a pass over the empty graph leaves when the process ends.\<close>

definition crashed_db :: db where
  "crashed_db =
     \<lparr>nodes_tbl = [], edges_tbl = [], important_nodes_tbl = Some [], graph_stats_tbl = None\<rparr>"

text \<open>A store whose only label holds a NUL character: \<^verbatim>\<open>a\<close>, NUL, \<^verbatim>\<open>b\<close>, \<^verbatim>\<open>c\<close>.\<close>

definition nul_label_db :: db where
  "nul_label_db = fresh_db\<lparr>nodes_tbl :=
     [\<lparr>node_id = ''n'', node_label = [CHR ''a'', CHR 0x00, CHR ''b'', CHR ''c''],
       node_degree = 0\<rparr>]\<rparr>"

text \<open>A store with one node labelled \<^verbatim>\<open>ab\<close>.\<close>

definition ab_db :: db where
  "ab_db = fresh_db\<lparr>nodes_tbl := [\<lparr>node_id = ''ab'', node_label = ''ab'', node_degree = 0\<rparr>]\<rparr>"

text \<open>Three nodes of equal degree, inserted in the order \<^verbatim>\<open>node_b\<close>, \<^verbatim>\<open>node_a\<close>, \<^verbatim>\<open>node_c\<close>.\<close>

definition tie_db :: db where
  "tie_db = fresh_db\<lparr>nodes_tbl :=
     [\<lparr>node_id = ''node_b'', node_label = ''node_b'', node_degree = 0\<rparr>,
      \<lparr>node_id = ''node_a'', node_label = ''node_a'', node_degree = 0\<rparr>,
      \<lparr>node_id = ''node_c'', node_label = ''node_c'', node_degree = 0\<rparr>]\<rparr>"

text \<open>The store a pass over the path graph leaves.\<close>

definition path_db :: db where
  "path_db =
     \<lparr>nodes_tbl = [\<lparr>node_id = ''a'', node_label = ''a'', node_degree = 1\<rparr>,
                  \<lparr>node_id = ''b'', node_label = ''b'', node_degree = 2\<rparr>,
                  \<lparr>node_id = ''c'', node_label = ''c'', node_degree = 1\<rparr>,
                  \<lparr>node_id = ''d'', node_label = ''d'', node_degree = 0\<rparr>],
      edges_tbl = [\<lparr>edge_id = 0, edge_source = ''a'', edge_target = ''b''\<rparr>,
                  \<lparr>edge_id = 1, edge_source = ''b'', edge_target = ''c''\<rparr>],
      important_nodes_tbl = Some [''b'', ''a'', ''c'', ''d''],
      graph_stats_tbl = Some [(''total_nodes'', Count 4), (''total_edges'', Count 2),
                         (''avg_degree'', Average 1)]\<rparr>"


section \<open>The ranking is by degree, ties in node order\<close>

lemma insort_key_sorted_wrt:
  fixes f :: "'a \<Rightarrow> 'k::linorder"
  assumes "sorted_wrt (\<lambda>a b. f a < f b \<or> (f a = f b \<and> T a b)) ys"
    and "\<forall>y\<in>set ys. T x y"
  shows "sorted_wrt (\<lambda>a b. f a < f b \<or> (f a = f b \<and> T a b)) (insort_key f x ys)"
  using assms
proof (induction ys)
  case Nil
  then show ?case by simp
next
  case (Cons y ys)
  show ?case
  proof (cases "f x \<le> f y")
    case True
    have "\<forall>z\<in>set ys. f y \<le> f z" using Cons.prems(1) by auto
    with True Cons.prems show ?thesis by (auto simp: set_insort_key)
  next
    case False
    with Cons show ?thesis by (auto simp: set_insort_key)
  qed
qed

lemma sort_key_sorted_wrt:
  fixes f :: "'a \<Rightarrow> 'k::linorder"
  assumes "sorted_wrt T xs"
  shows "sorted_wrt (\<lambda>a b. f a < f b \<or> (f a = f b \<and> T a b)) (sort_key f xs)"
  using assms
proof (induction xs)
  case Nil
  then show ?case by simp
next
  case (Cons x xs)
  then show ?case by (auto intro!: insort_key_sorted_wrt)
qed

lemma sorted_reverse_sorted_wrt:
  fixes f :: "'a \<Rightarrow> 'k::linorder"
  assumes "sorted_wrt T xs"
  shows "sorted_wrt (\<lambda>a b. f b < f a \<or> (f a = f b \<and> T a b)) (sorted_reverse f xs)"
proof -
  have "sorted_wrt (\<lambda>a b. T b a) (rev xs)"
    using assms by (simp add: sorted_wrt_rev)
  then have "sorted_wrt (\<lambda>a b. f a < f b \<or> (f a = f b \<and> T b a)) (sort_key f (rev xs))"
    by (rule sort_key_sorted_wrt)
  then show ?thesis
    unfolding sorted_reverse_def sorted_wrt_rev
    by (rule sorted_wrt_mono_rel[rotated]) auto
qed

lemma first_index_sorted_wrt:
  "distinct xs \<Longrightarrow> sorted_wrt (\<lambda>a b. first_index xs a < first_index xs b) xs"
proof (induction xs)
  case Nil
  then show ?case by simp
next
  case (Cons x xs)
  then have "sorted_wrt (\<lambda>a b. first_index xs a < first_index xs b) xs" by simp
  then have "sorted_wrt (\<lambda>a b. first_index (x # xs) a < first_index (x # xs) b) xs"
    by (rule sorted_wrt_mono_rel[rotated]) (use Cons.prems in auto)
  with Cons.prems show ?case by auto
qed


lemma py_slice_to_take: "\<exists>k. py_slice_to xs n = take k xs"
  by (auto simp: py_slice_to_def)

lemma set_sorted_reverse: "set (sorted_reverse k xs) = set xs"
  by (simp add: sorted_reverse_def)

lemma degree_dict_ranked:
  assumes "distinct (nodes G)"
  shows "sorted_wrt (\<lambda>p q. ranks_before G (fst p) (fst q)) (sorted_reverse snd (degree_dict G))"
proof -
  let ?T = "\<lambda>p q :: string \<times> rat. first_index (nodes G) (fst p) < first_index (nodes G) (fst q)"
  have "sorted_wrt ?T (degree_dict G)"
    using first_index_sorted_wrt [OF assms] by (simp add: degree_dict_def sorted_wrt_map)
  then have "sorted_wrt (\<lambda>p q. snd q < snd p \<or> (snd p = snd q \<and> ?T p q))
               (sorted_reverse snd (degree_dict G))"
    by (rule sorted_reverse_sorted_wrt)
  then show ?thesis
  proof (rule sorted_wrt_mono_rel [rotated])
    fix p q
    assume "p \<in> set (sorted_reverse snd (degree_dict G))"
      and "q \<in> set (sorted_reverse snd (degree_dict G))"
    then have "snd p = of_nat (degree G (fst p))" and "snd q = of_nat (degree G (fst q))"
      by (auto simp: set_sorted_reverse degree_dict_def)
    moreover assume "snd q < snd p \<or> (snd p = snd q \<and> ?T p q)"
    ultimately show "ranks_before G (fst p) (fst q)"
      by (auto simp: ranks_before_def)
  qed
qed

lemma find_important_nodes_degree:
  "find_important_nodes nx G ''degree'' top_n =
     map fst (py_slice_to (sorted_reverse snd (degree_dict G)) top_n)"
  by (simp add: find_important_nodes_def find_important_nodes_run_def)

text \<open>
  Claim C7, as amended.  For every graph and every \<open>top_n \<ge> 0\<close>, the degree method
  returns at most \<open>top_n\<close> node ids, sorted by descending degree with ties in the order
  of \<^verbatim>\<open>G.nodes()\<close>; the result does not depend on the centrality routines, so it is
  determined by the graph and \<open>top_n\<close>.
\<close>

theorem degree_ranking_sorted:
  assumes "wf_graph G" and "0 \<le> top_n"
  shows "int (length (find_important_nodes nx G ''degree'' top_n)) \<le> top_n \<and>
         sorted_wrt (ranks_before G) (find_important_nodes nx G ''degree'' top_n) \<and>
         find_important_nodes nx G ''degree'' top_n
           = find_important_nodes nx' G ''degree'' top_n"
proof -
  obtain k where k: "py_slice_to (sorted_reverse snd (degree_dict G)) top_n
                       = take k (sorted_reverse snd (degree_dict G))"
    using py_slice_to_take by blast
  have "sorted_wrt (\<lambda>p q. ranks_before G (fst p) (fst q))
          (take k (sorted_reverse snd (degree_dict G)))"
    using assms(1) by (intro sorted_wrt_take degree_dict_ranked) (simp add: wf_graph_def)
  then have "sorted_wrt (ranks_before G) (find_important_nodes nx G ''degree'' top_n)"
    by (simp add: find_important_nodes_degree k sorted_wrt_map)
  moreover have "int (length (find_important_nodes nx G ''degree'' top_n)) \<le> top_n"
    using assms(2) by (simp add: find_important_nodes_degree py_slice_to_def)
  ultimately show ?thesis by (simp add: find_important_nodes_degree)
qed

lemma wf_path_graph: "wf_graph path_graph"
  by (simp add: wf_graph_def path_graph_def)

text \<open>The theorem at the path graph with \<open>top_n = 2\<close>.\<close>

theorem degree_ranking_sorted_witness:
  "wf_graph path_graph \<and> (0::int) \<le> 2 \<and>
   int (length (find_important_nodes nx_failing path_graph ''degree'' 2)) \<le> 2 \<and>
   sorted_wrt (ranks_before path_graph) (find_important_nodes nx_failing path_graph ''degree'' 2)"
  using degree_ranking_sorted [of path_graph 2 nx_failing nx_failing] wf_path_graph
  by simp

text \<open>
  Claim C7 as stated fails for a negative \<open>top_n\<close>: \<^verbatim>\<open>sorted_nodes[:-1]\<close> drops the
  last node only, so three of the four nodes come back and three is more than \<open>-1\<close>.
\<close>

theorem degree_ranking_negative_top_n_counterexample:
  "find_important_nodes nx_failing path_graph ''degree'' (- 1) = [''b'', ''a'', ''c''] \<and>
   \<not> int (length (find_important_nodes nx_failing path_graph ''degree'' (- 1))) \<le> - 1"
  by (simp add: find_important_nodes_def find_important_nodes_run_def py_slice_to_def sorted_reverse_def degree_dict_def
      degree_def path_graph_def)

lemma py_slice_to_map: "map f (py_slice_to xs n) = py_slice_to (map f xs) n"
  by (simp add: py_slice_to_def take_map)

lemma distinct_sorted_reverse_fst:
  "distinct (map fst (sorted_reverse k xs)) = distinct (map fst xs)"
  by (simp add: sorted_reverse_def distinct_map)

lemma degree_ranking_is_ranked:
  assumes "wf_graph G"
  shows "set (map fst (sorted_reverse snd (degree_dict G))) = set (nodes G) \<and>
         distinct (map fst (sorted_reverse snd (degree_dict G))) \<and>
         sorted_wrt (ranks_before G) (map fst (sorted_reverse snd (degree_dict G)))"
proof -
  have dn: "distinct (nodes G)" using assms by (simp add: wf_graph_def)
  have "set (map fst (sorted_reverse snd (degree_dict G))) = set (nodes G)"
    by (simp add: set_sorted_reverse degree_dict_def image_image)
  moreover have "distinct (map fst (sorted_reverse snd (degree_dict G)))"
    using dn by (simp add: distinct_sorted_reverse_fst degree_dict_def comp_def)
  moreover have "sorted_wrt (ranks_before G) (map fst (sorted_reverse snd (degree_dict G)))"
    using degree_dict_ranked [OF dn] by (simp add: sorted_wrt_map)
  ultimately show ?thesis by blast
qed

text \<open>
  Claim C10.  For a method name other than \<^verbatim>\<open>degree\<close>, \<^verbatim>\<open>betweenness\<close> and
  \<^verbatim>\<open>pagerank\<close> the ranker prints nothing and returns the degree ranking: there is a
  list of all nodes, each once, ordered by descending degree with ties in the order of
  \<^verbatim>\<open>G.nodes()\<close>, of which the call returns the slice \<^verbatim>\<open>[:top_n]\<close>; the degree method
  prints and returns the same.
\<close>

theorem unknown_method_ranks_by_degree:
  assumes "method \<noteq> ''degree''" and "method \<noteq> ''betweenness''" and "method \<noteq> ''pagerank''"
    and "wf_graph G"
  shows "\<exists>ranking. set ranking = set (nodes G) \<and> distinct ranking \<and>
           sorted_wrt (ranks_before G) ranking \<and>
           find_important_nodes_run nx G method top_n = ([], py_slice_to ranking top_n) \<and>
           find_important_nodes_run nx G ''degree'' top_n = ([], py_slice_to ranking top_n)"
proof -
  let ?ranking = "map fst (sorted_reverse snd (degree_dict G))"
  have "find_important_nodes_run nx G method top_n = ([], py_slice_to ?ranking top_n)"
    using assms(1-3) by (simp add: find_important_nodes_run_def py_slice_to_map)
  moreover have "find_important_nodes_run nx G ''degree'' top_n = ([], py_slice_to ?ranking top_n)"
    by (simp add: find_important_nodes_run_def py_slice_to_map)
  ultimately show ?thesis
    using degree_ranking_is_ranked [OF assms(4)] by blast
qed

text \<open>The theorem at the method name \<^verbatim>\<open>closeness\<close> on the path graph.\<close>

theorem unknown_method_ranks_by_degree_witness:
  "''closeness'' \<noteq> ''degree'' \<and> ''closeness'' \<noteq> ''betweenness'' \<and> ''closeness'' \<noteq> ''pagerank'' \<and>
   wf_graph path_graph \<and>
   (\<exists>ranking. set ranking = set (nodes path_graph) \<and> distinct ranking \<and>
      sorted_wrt (ranks_before path_graph) ranking \<and>
      find_important_nodes_run nx_failing path_graph ''closeness'' 2
        = ([], py_slice_to ranking 2) \<and>
      find_important_nodes_run nx_failing path_graph ''degree'' 2
        = ([], py_slice_to ranking 2))"
  using unknown_method_ranks_by_degree [of "''closeness''" path_graph nx_failing 2] wf_path_graph
  by simp

text \<open>
  The same calls evaluated, next to a call that is not silent: when \<^verbatim>\<open>pagerank\<close> fails
  the ranker falls back to the degree as well, and prints that it does.
\<close>

lemma unknown_method_evaluated:
  "find_important_nodes_run nx_failing path_graph ''closeness'' 2 = ([], [''b'', ''a'']) \<and>
   find_important_nodes_run nx_failing path_graph ''degree'' 2 = ([], [''b'', ''a'']) \<and>
   find_important_nodes_run nx_failing path_graph ''pagerank'' 2
     = ([''Error computing PageRank. Using degree instead.''], [''b'', ''a''])"
  by (simp add: find_important_nodes_run_def nx_failing_def py_slice_to_def sorted_reverse_def
      degree_dict_def degree_def path_graph_def)


section \<open>The neighbourhood stays within its budget\<close>

lemma length_set_add: "length (set_add x s) \<le> Suc (length s)"
  by (simp add: set_add_def)

lemma add_neighbors_budget:
  assumes "int (length (nodes_to_include s)) \<le> K" and "max_nodes \<le> K"
  shows "int (length (nodes_to_include (add_neighbors max_nodes cur nbrs s))) \<le> K"
  using assms
proof (induction nbrs arbitrary: s)
  case Nil
  then show ?case by simp
next
  case (Cons nb rest)
  show ?case
  proof (cases "max_nodes \<le> int (length (nodes_to_include s))")
    case True
    with Cons.prems show ?thesis by simp
  next
    case False
    have "int (length (set_add nb (nodes_to_include s))) \<le> K"
      using False Cons.prems(2) length_set_add [of nb "nodes_to_include s"] by linarith
    with False Cons.prems(2) show ?thesis
      by (simp add: Cons.IH)
  qed
qed

lemma add_neighbors_distance:
  assumes "\<forall>n v. distance_map s n = Some v \<longrightarrow> v \<le> D" and "cur \<le> D"
  shows "\<forall>n v. distance_map (add_neighbors max_nodes cur nbrs s) n = Some v \<longrightarrow> v \<le> D"
  using assms
proof (induction nbrs arbitrary: s)
  case Nil
  then show ?case by simp
next
  case (Cons nb rest)
  show ?case
  proof (cases "max_nodes \<le> int (length (nodes_to_include s))")
    case True
    with Cons.prems show ?thesis by simp
  next
    case False
    let ?s' = "s\<lparr>next_frontier := set_add nb (next_frontier s),
                 nodes_to_include := set_add nb (nodes_to_include s),
                 distance_map := (distance_map s)(nb \<mapsto> cur)\<rparr>"
    have "\<forall>n v. distance_map ?s' n = Some v \<longrightarrow> v \<le> D"
      using Cons.prems by simp
    then have "\<forall>n v. distance_map (add_neighbors max_nodes cur rest ?s') n = Some v \<longrightarrow> v \<le> D"
      using Cons.prems(2) by (rule Cons.IH)
    with False show ?thesis by simp
  qed
qed

lemma visit_frontier_budget:
  assumes "int (length (nodes_to_include s)) \<le> K" and "max_nodes \<le> K"
  shows "int (length (nodes_to_include (visit_frontier it G max_nodes cur fr s))) \<le> K"
  using assms
  by (induction fr arbitrary: s) (simp_all add: add_neighbors_budget Let_def)

lemma visit_frontier_distance:
  assumes "\<forall>n v. distance_map s n = Some v \<longrightarrow> v \<le> D" and "cur \<le> D"
  shows "\<forall>n v. distance_map (visit_frontier it G max_nodes cur fr s) n = Some v \<longrightarrow> v \<le> D"
  using assms
proof (induction fr arbitrary: s)
  case Nil
  then show ?case by simp
next
  case (Cons node rest)
  let ?s' = "add_neighbors max_nodes cur
               (it (filter (\<lambda>n. n \<notin> set (nodes_to_include s)) (neighbors G node))) s"
  have "\<forall>n v. distance_map ?s' n = Some v \<longrightarrow> v \<le> D"
    using Cons.prems by (rule add_neighbors_distance)
  then have "\<forall>n v. distance_map (visit_frontier it G max_nodes cur rest ?s') n = Some v \<longrightarrow> v \<le> D"
    using Cons.prems(2) by (rule Cons.IH)
  then show ?case by (simp add: Let_def)
qed

lemma bfs_loop_stop:
  assumes "\<not> (cur < max_distance \<and> int (length included) < max_nodes)"
  shows "bfs_loop it G max_distance max_nodes cur frontier included dmap = (included, dmap)"
  by (subst bfs_loop.simps) (simp only: assms if_False)

lemma bfs_loop_step:
  assumes "cur < max_distance \<and> int (length included) < max_nodes"
    and "s = visit_frontier it G max_nodes (cur + 1) (it frontier)
               \<lparr>nodes_to_include = included, distance_map = dmap, next_frontier = []\<rparr>"
  shows "bfs_loop it G max_distance max_nodes cur frontier included dmap =
           (if next_frontier s = [] then (nodes_to_include s, distance_map s)
            else bfs_loop it G max_distance max_nodes (cur + 1) (next_frontier s)
                   (nodes_to_include s) (distance_map s))"
  by (subst bfs_loop.simps) (simp only: assms if_True Let_def simp_thms)

lemma bfs_loop_bounds:
  assumes "int (length included) \<le> K" and "max_nodes \<le> K"
    and "\<forall>n v. dmap n = Some v \<longrightarrow> v \<le> D" and "max_distance \<le> D"
  shows "int (length (fst (bfs_loop it G max_distance max_nodes cur frontier included dmap))) \<le> K \<and>
         (\<forall>n v. snd (bfs_loop it G max_distance max_nodes cur frontier included dmap) n = Some v
                 \<longrightarrow> v \<le> D)"
  using assms
proof (induction it G max_distance max_nodes cur frontier included dmap rule: bfs_loop.induct)
  case (1 it G max_distance max_nodes cur frontier included dmap)
  show ?case
  proof (cases "cur < max_distance \<and> int (length included) < max_nodes")
    case False
    with "1.prems" show ?thesis by (simp add: bfs_loop_stop)
  next
    case True
    define s where "s = visit_frontier it G max_nodes (cur + 1) (it frontier)
                   \<lparr>nodes_to_include = included, distance_map = dmap, next_frontier = []\<rparr>"
    note unfold = bfs_loop_step [OF True s_def]
    have len: "int (length (nodes_to_include s)) \<le> K"
      unfolding s_def using "1.prems"(1,2) by (simp add: visit_frontier_budget)
    have "cur + 1 \<le> D" using True "1.prems"(4) by linarith
    then have dm: "\<forall>n v. distance_map s n = Some v \<longrightarrow> v \<le> D"
      unfolding s_def using "1.prems"(3) by (intro visit_frontier_distance) simp_all
    show ?thesis
    proof (cases "next_frontier s = []")
      case True
      with len dm show ?thesis by (simp add: unfold)
    next
      case False
      have "int (length (fst (bfs_loop it G max_distance max_nodes (cur + 1) (next_frontier s)
                (nodes_to_include s) (distance_map s)))) \<le> K \<and>
            (\<forall>n v. snd (bfs_loop it G max_distance max_nodes (cur + 1) (next_frontier s)
                (nodes_to_include s) (distance_map s)) n = Some v \<longrightarrow> v \<le> D)"
        using False len "1.prems"(2) dm "1.prems"(4)
        by (intro "1.IH" [OF True refl s_def]) simp_all
      with False show ?thesis by (simp add: unfold)
    qed
  qed
qed

lemma subgraph_nodes_length:
  assumes "distinct (nodes G)"
  shows "length (nodes (subgraph G ns)) \<le> length ns"
proof -
  have "length (filter (\<lambda>n. n \<in> set ns) (nodes G)) = card ({n. n \<in> set ns} \<inter> set (nodes G))"
    using assms by (rule distinct_length_filter)
  also have "\<dots> \<le> card (set ns)"
    by (rule card_mono) auto
  also have "\<dots> \<le> length ns"
    by (rule card_length)
  finally show ?thesis by (simp add: subgraph_def)
qed

lemma get_node_neighborhood_center:
  assumes "get_node_neighborhood it r G c d m = Inr (sub, dm)"
  shows "\<exists>center. sub = subgraph G (fst (bfs_loop it G d m 0 [center] [center] [center \<mapsto> 0])) \<and>
                  dm = snd (bfs_loop it G d m 0 [center] [center] [center \<mapsto> 0])"
proof (cases "c \<in> set (nodes G)")
  case True
  with assms show ?thesis
    by (auto simp: get_node_neighborhood_def Let_def case_prod_beta)
next
  case False
  with assms show ?thesis
    by (cases "random_choice r (nodes G)")
       (auto simp: get_node_neighborhood_def Let_def case_prod_beta)
qed

lemma get_node_neighborhood_returns:
  assumes "nodes G \<noteq> []"
  shows "\<exists>res. get_node_neighborhood it r G c d m = Inr res"
  using assms
  by (auto simp: get_node_neighborhood_def random_choice_def Let_def split: prod.splits)

lemma get_node_neighborhood_bounds:
  assumes "wf_graph G" and "get_node_neighborhood it r G c d m = Inr (sub, dm)"
  shows "int (length (nodes sub)) \<le> max 1 m \<and> (\<forall>n v. dm n = Some v \<longrightarrow> v \<le> max 0 d)"
proof -
  from get_node_neighborhood_center [OF assms(2)] obtain center where
    sub: "sub = subgraph G (fst (bfs_loop it G d m 0 [center] [center] [center \<mapsto> 0]))" and
    dm: "dm = snd (bfs_loop it G d m 0 [center] [center] [center \<mapsto> 0])"
    by blast
  have b: "int (length (fst (bfs_loop it G d m 0 [center] [center] [center \<mapsto> 0]))) \<le> max 1 m \<and>
        (\<forall>n v. snd (bfs_loop it G d m 0 [center] [center] [center \<mapsto> 0]) n = Some v
                \<longrightarrow> v \<le> max 0 d)"
    by (rule bfs_loop_bounds) simp_all
  have "length (nodes sub)
          \<le> length (fst (bfs_loop it G d m 0 [center] [center] [center \<mapsto> 0]))"
    unfolding sub using assms(1) by (intro subgraph_nodes_length) (simp add: wf_graph_def)
  with b dm show ?thesis by auto
qed

text \<open>
  Claim C1, as amended.  On a graph with at least one node, for every centre, every
  \<open>max_distance \<ge> 0\<close>, every budget \<open>max_nodes \<ge> 1\<close>, every iteration order of the sets
  and every random draw, \<^verbatim>\<open>get_node_neighborhood\<close> returns, the subgraph has at most
  \<open>max_nodes\<close> nodes and every distance in the map is at most \<open>max_distance\<close>.
\<close>

theorem neighborhood_within_budget:
  assumes "wf_graph G" and "nodes G \<noteq> []" and "1 \<le> m" and "0 \<le> d"
  shows "\<exists>sub dm. get_node_neighborhood it r G c d m = Inr (sub, dm) \<and>
           int (length (nodes sub)) \<le> m \<and> (\<forall>n v. dm n = Some v \<longrightarrow> v \<le> d)"
proof -
  from assms(2) obtain sub dm where eq: "get_node_neighborhood it r G c d m = Inr (sub, dm)"
    using get_node_neighborhood_returns [of G it r c d m] by auto
  from get_node_neighborhood_bounds [OF assms(1) eq] assms(3,4) eq show ?thesis
    by (simp add: max_def)
qed

text \<open>The theorem at Scenario A: centre \<^verbatim>\<open>b\<close> of the path graph, distance 1, budget 10.\<close>

theorem neighborhood_within_budget_witness:
  "wf_graph path_graph \<and> nodes path_graph \<noteq> [] \<and> (1::int) \<le> 10 \<and> (0::int) \<le> 1 \<and>
   (\<exists>sub dm. get_node_neighborhood id 0 path_graph ''b'' 1 10 = Inr (sub, dm) \<and>
      int (length (nodes sub)) \<le> 10 \<and> (\<forall>n v. dm n = Some v \<longrightarrow> v \<le> 1))"
  using neighborhood_within_budget [of path_graph 10 1 id 0 "''b''"] wf_path_graph
  by (simp add: path_graph_def)

text \<open>
  Claim C1 as stated fails for a negative \<open>max_distance\<close>: the centre is entered with
  distance 0 before the loop is reached, and 0 is more than \<open>-1\<close>.  On a graph without
  nodes nothing is returned: \<^verbatim>\<open>random.choice\<close> raises \<^verbatim>\<open>IndexError\<close>.
\<close>

theorem neighborhood_negative_distance_counterexample:
  "get_node_neighborhood id 0 path_graph ''a'' (- 1) 10
     = Inr (\<lparr>directed = False, nodes = [''a''], edges = []\<rparr>, [''a'' \<mapsto> 0]) \<and>
   \<not> (0::int) \<le> - 1 \<and>
   get_node_neighborhood id 0 empty_graph ''a'' 1 10 = Inl IndexError"
  by (simp add: get_node_neighborhood_def path_graph_def empty_graph_def bfs_loop_stop
      subgraph_def random_choice_def)

text \<open>Scenario A of the specification, evaluated.\<close>

lemma scenario_a:
  "\<exists>dm. get_node_neighborhood id 0 path_graph ''b'' 1 10 =
     Inr (\<lparr>directed = False, nodes = [''a'', ''b'', ''c''], edges = [(''a'', ''b''), (''b'', ''c'')]\<rparr>, dm)
     \<and> dm ''a'' = Some 1 \<and> dm ''b'' = Some 0 \<and> dm ''c'' = Some 1 \<and> dm ''d'' = None"
  by (simp add: get_node_neighborhood_def path_graph_def bfs_loop.simps neighbors_def set_add_def subgraph_def)


section \<open>What ingestion writes\<close>

lemma escape_eq_iff [simp]: "escape s = escape t \<longleftrightarrow> s = t"
proof (induction s arbitrary: t)
  case Nil
  then show ?case by (cases t) auto
next
  case (Cons c cs)
  then show ?case by (cases t) auto
qed

lemma sorted_pair_eq_iff: "sorted_pair a b = sorted_pair c d \<longleftrightarrow> {a, b} = {c, d}"
  by (auto simp: sorted_pair_def doubleton_eq_iff)

lemma insert_node_rows_ok:
  assumes "distinct (map node_id (nodes_tbl (pending c) @ rows))"
  shows "insert_node_rows rows c =
           (Inr (), c\<lparr>pending := (pending c)\<lparr>nodes_tbl := nodes_tbl (pending c) @ rows\<rparr>\<rparr>)"
  using assms
proof (induction rows arbitrary: c)
  case Nil
  then show ?case by simp
next
  case (Cons r rows)
  let ?c' = "c\<lparr>pending := (pending c)\<lparr>nodes_tbl := nodes_tbl (pending c) @ [r]\<rparr>\<rparr>"
  from Cons.prems have fresh: "node_id r \<notin> node_id ` set (nodes_tbl (pending c))"
    by auto
  from Cons.prems have "distinct (map node_id (nodes_tbl (pending ?c') @ rows))"
    by simp
  then have "insert_node_rows rows ?c' =
      (Inr (), ?c'\<lparr>pending := (pending ?c')\<lparr>nodes_tbl := nodes_tbl (pending ?c') @ rows\<rparr>\<rparr>)"
    by (rule Cons.IH)
  with fresh show ?case by simp
qed

lemma executemany_insert_nodes_ok:
  assumes "distinct (map node_id (nodes_tbl (pending c) @ rows))"
  shows "executemany_insert_nodes rows c =
           (Inr (), c\<lparr>pending := (pending c)\<lparr>nodes_tbl := nodes_tbl (pending c) @ rows\<rparr>,
                      in_transaction := True\<rparr>)"
proof -
  have "distinct (map node_id (nodes_tbl (pending (begin_transaction c)) @ rows))"
    using assms by (simp add: begin_transaction_def)
  from insert_node_rows_ok [OF this] show ?thesis
    by (simp add: executemany_insert_nodes_def begin_transaction_def)
qed

lemma insert_important_rows_ok:
  assumes "distinct (tbl @ rows)"
  shows "insert_important_rows rows tbl = (Inr (), tbl @ rows)"
  using assms by (induction rows arbitrary: tbl) auto

lemma executemany_insert_important_ok:
  assumes "important_nodes_tbl (pending c) = Some tbl" and "distinct (tbl @ rows)"
  shows "executemany_insert_important rows c =
           (Inr (), c\<lparr>pending := (pending c)\<lparr>important_nodes_tbl := Some (tbl @ rows)\<rparr>,
                      in_transaction := True\<rparr>)"
  using assms
  by (simp add: executemany_insert_important_def insert_important_rows_ok begin_transaction_def)

lemma insert_stat_rows_ok:
  assumes "distinct (map fst (tbl @ rows))"
  shows "insert_stat_rows rows tbl = (Inr (), tbl @ rows)"
  using assms by (induction rows arbitrary: tbl) auto

lemma executemany_insert_stats_ok:
  assumes "graph_stats_tbl (pending c) = Some tbl" and "distinct (map fst (tbl @ rows))"
  shows "executemany_insert_stats rows c =
           (Inr (), c\<lparr>pending := (pending c)\<lparr>graph_stats_tbl := Some (tbl @ rows)\<rparr>,
                      in_transaction := True\<rparr>)"
  using assms
  by (simp add: executemany_insert_stats_def insert_stat_rows_ok begin_transaction_def)

lemma insert_or_ignore_edge_rows_ok:
  assumes "distinct (map edge_id (edges_tbl (pending c) @ rows))"
    and "distinct (map (\<lambda>e. (edge_source e, edge_target e)) (edges_tbl (pending c) @ rows))"
  shows "insert_or_ignore_edge_rows rows c =
           c\<lparr>pending := (pending c)\<lparr>edges_tbl := edges_tbl (pending c) @ rows\<rparr>\<rparr>"
  using assms
proof (induction rows arbitrary: c)
  case Nil
  then show ?case by simp
next
  case (Cons r rows)
  let ?c' = "c\<lparr>pending := (pending c)\<lparr>edges_tbl := edges_tbl (pending c) @ [r]\<rparr>\<rparr>"
  from Cons.prems have fresh:
    "edge_id r \<notin> edge_id ` set (edges_tbl (pending c))"
    "(edge_source r, edge_target r)
       \<notin> (\<lambda>e. (edge_source e, edge_target e)) ` set (edges_tbl (pending c))"
    by auto
  from Cons.prems have
    "distinct (map edge_id (edges_tbl (pending ?c') @ rows))"
    "distinct (map (\<lambda>e. (edge_source e, edge_target e)) (edges_tbl (pending ?c') @ rows))"
    by simp_all
  then have "insert_or_ignore_edge_rows rows ?c' =
      ?c'\<lparr>pending := (pending ?c')\<lparr>edges_tbl := edges_tbl (pending ?c') @ rows\<rparr>\<rparr>"
    by (rule Cons.IH)
  with fresh show ?case by simp
qed

lemma executemany_insert_or_ignore_edges_ok:
  assumes "distinct (map edge_id (edges_tbl (pending c) @ rows))"
    and "distinct (map (\<lambda>e. (edge_source e, edge_target e)) (edges_tbl (pending c) @ rows))"
  shows "executemany_insert_or_ignore_edges rows c =
           c\<lparr>pending := (pending c)\<lparr>edges_tbl := edges_tbl (pending c) @ rows\<rparr>,
             in_transaction := True\<rparr>"
proof -
  have "distinct (map edge_id (edges_tbl (pending (begin_transaction c)) @ rows))"
    and "distinct (map (\<lambda>e. (edge_source e, edge_target e))
                     (edges_tbl (pending (begin_transaction c)) @ rows))"
    using assms by (simp_all add: begin_transaction_def)
  from insert_or_ignore_edge_rows_ok [OF this] show ?thesis
    by (simp add: executemany_insert_or_ignore_edges_def begin_transaction_def)
qed

lemma connection_eqI:
  "committed c = d \<Longrightarrow> pending c = d \<Longrightarrow> in_transaction c = False \<Longrightarrow>
   c = \<lparr>committed = d, pending = d, in_transaction = False\<rparr>"
  by (cases c) simp

lemma insert_nodes_loop_flush:
  assumes "distinct (map node_id (nodes_tbl (pending c) @ nodes_data @ map (node_row_of G) ns))"
    and "committed c = pending c" and "\<not> in_transaction c"
  shows "(case insert_nodes_loop G ns nodes_data c of
            (Inl e, c') \<Rightarrow> (Inl e, c')
          | (Inr nd, c') \<Rightarrow>
              if nd \<noteq> [] then
                (case executemany_insert_nodes nd c' of
                   (Inl e, c'') \<Rightarrow> (Inl e, c'')
                 | (Inr u, c'') \<Rightarrow> (Inr (), commit c''))
              else (Inr (), c'))
         = (Inr (),
            \<lparr>committed = (pending c)\<lparr>nodes_tbl :=
                 nodes_tbl (pending c) @ nodes_data @ map (node_row_of G) ns\<rparr>,
             pending = (pending c)\<lparr>nodes_tbl :=
                 nodes_tbl (pending c) @ nodes_data @ map (node_row_of G) ns\<rparr>,
             in_transaction = False\<rparr>)"
  using assms
proof (induction ns arbitrary: nodes_data c)
  case Nil
  show ?case
  proof (cases "nodes_data = []")
    case True
    with Nil.prems(2,3) show ?thesis by (simp add: connection_eqI)
  next
    case False
    from Nil.prems(1) have "distinct (map node_id (nodes_tbl (pending c) @ nodes_data))"
      by auto
    from executemany_insert_nodes_ok [OF this] False show ?thesis
      by (simp add: commit_def)
  qed
next
  case (Cons n ns)
  let ?nd = "nodes_data @ [node_row_of G n]"
  show ?case
  proof (cases "batch_size \<le> length ?nd")
    case True
    from Cons.prems(1) have d: "distinct (map node_id (nodes_tbl (pending c) @ ?nd))"
      by auto
    let ?c1 = "commit (c\<lparr>pending := (pending c)\<lparr>nodes_tbl := nodes_tbl (pending c) @ ?nd\<rparr>,
                         in_transaction := True\<rparr>)"
    have "distinct (map node_id (nodes_tbl (pending ?c1) @ [] @ map (node_row_of G) ns))"
      using Cons.prems(1) by (auto simp: commit_def)
    moreover have "committed ?c1 = pending ?c1" and "\<not> in_transaction ?c1"
      by (simp_all add: commit_def)
    ultimately have ih: "(case insert_nodes_loop G ns [] ?c1 of
            (Inl e, c') \<Rightarrow> (Inl e, c')
          | (Inr nd, c') \<Rightarrow>
              if nd \<noteq> [] then
                (case executemany_insert_nodes nd c' of
                   (Inl e, c'') \<Rightarrow> (Inl e, c'')
                 | (Inr u, c'') \<Rightarrow> (Inr (), commit c''))
              else (Inr (), c'))
         = (Inr (),
            \<lparr>committed = (pending ?c1)\<lparr>nodes_tbl :=
                 nodes_tbl (pending ?c1) @ [] @ map (node_row_of G) ns\<rparr>,
             pending = (pending ?c1)\<lparr>nodes_tbl :=
                 nodes_tbl (pending ?c1) @ [] @ map (node_row_of G) ns\<rparr>,
             in_transaction = False\<rparr>)"
      by (rule Cons.IH)
    have "insert_nodes_loop G (n # ns) nodes_data c = insert_nodes_loop G ns [] ?c1"
      using True executemany_insert_nodes_ok [OF d] by (simp add: Let_def)
    with ih show ?thesis by (simp add: commit_def)
  next
    case False
    from Cons.prems(1)
    have "distinct (map node_id (nodes_tbl (pending c) @ ?nd @ map (node_row_of G) ns))"
      by auto
    from Cons.IH [OF this Cons.prems(2,3)] False show ?thesis
      by (simp add: Let_def)
  qed
qed

lemma insert_nodes_ok:
  assumes "distinct (nodes G)"
  shows "insert_nodes G (connect None) =
           (Inr (), \<lparr>committed = fresh_db\<lparr>nodes_tbl := map (node_row_of G) (nodes G)\<rparr>,
                     pending = fresh_db\<lparr>nodes_tbl := map (node_row_of G) (nodes G)\<rparr>,
                     in_transaction = False\<rparr>)"
proof -
  have "map node_id (map (node_row_of G) (nodes G)) = map escape (nodes G)"
    by (simp add: node_row_of_def)
  then have "distinct (map node_id (map (node_row_of G) (nodes G)))"
    using assms by (simp add: distinct_map inj_on_def)
  then have "distinct (map node_id (nodes_tbl (pending (connect None)) @ []
                 @ map (node_row_of G) (nodes G)))"
    by (simp add: connect_def fresh_db_def)
  moreover have "committed (connect None) = pending (connect None)"
    and "\<not> in_transaction (connect None)"
    by (simp_all add: connect_def)
  ultimately show ?thesis
    unfolding insert_nodes_def
    by (subst insert_nodes_loop_flush) (simp_all add: connect_def fresh_db_def)
qed

lemma insert_edges_loop_flush:
  assumes "distinct (map edge_id (edges_tbl (pending c) @ edges_data @ kept_edge_rows edge_set es))"
    and "distinct (map (\<lambda>e. (edge_source e, edge_target e))
                    (edges_tbl (pending c) @ edges_data @ kept_edge_rows edge_set es))"
    and "committed c = pending c \<and> \<not> in_transaction c"
  shows "(case insert_edges_loop es edges_data edge_set c of
            (ed, c') \<Rightarrow>
              if ed \<noteq> [] then commit (executemany_insert_or_ignore_edges ed c') else c')
         = \<lparr>committed = (pending c)\<lparr>edges_tbl :=
                 edges_tbl (pending c) @ edges_data @ kept_edge_rows edge_set es\<rparr>,
             pending = (pending c)\<lparr>edges_tbl :=
                 edges_tbl (pending c) @ edges_data @ kept_edge_rows edge_set es\<rparr>,
             in_transaction = False\<rparr>"
  using assms
proof (induction es edges_data edge_set c rule: insert_edges_loop.induct)
  case (1 edges_data edge_set c)
  show ?case
  proof (cases "edges_data = []")
    case True
    with "1.prems"(3) show ?thesis by (simp add: connection_eqI)
  next
    case False
    from "1.prems"(1,2) have
      "distinct (map edge_id (edges_tbl (pending c) @ edges_data))"
      "distinct (map (\<lambda>e. (edge_source e, edge_target e)) (edges_tbl (pending c) @ edges_data))"
      by auto
    from executemany_insert_or_ignore_edges_ok [OF this] False show ?thesis
      by (simp add: commit_def)
  qed
next
  case (2 i u v rest edges_data edge_set c)
  let ?pair = "sorted_pair (escape u) (escape v)"
  let ?row = "\<lparr>edge_id = i, edge_source = escape u, edge_target = escape v\<rparr>"
  let ?ed = "edges_data @ [?row]"
  show ?case
  proof (cases "?pair \<in> edge_set")
    case True
    with "2.prems" "2.IH"(1) [OF refl refl refl True] show ?thesis
      by (simp add: Let_def)
  next
    case seen: False
    show ?thesis
    proof (cases "batch_size \<le> length ?ed")
      case True
      from "2.prems"(1,2) seen have d:
        "distinct (map edge_id (edges_tbl (pending c) @ ?ed))"
        "distinct (map (\<lambda>e. (edge_source e, edge_target e)) (edges_tbl (pending c) @ ?ed))"
        by auto
      let ?c1 = "commit (c\<lparr>pending := (pending c)\<lparr>edges_tbl := edges_tbl (pending c) @ ?ed\<rparr>,
                           in_transaction := True\<rparr>)"
      have c1: "commit (executemany_insert_or_ignore_edges ?ed c) = ?c1"
        using executemany_insert_or_ignore_edges_ok [OF d] by simp
      have p1: "distinct (map edge_id (edges_tbl (pending ?c1) @ [] @
                  kept_edge_rows (insert ?pair edge_set) rest))"
        using "2.prems"(1) seen by (auto simp: commit_def)
      have p2: "distinct (map (\<lambda>e. (edge_source e, edge_target e))
                  (edges_tbl (pending ?c1) @ [] @ kept_edge_rows (insert ?pair edge_set) rest))"
        using "2.prems"(2) seen by (auto simp: commit_def)
      have p3: "committed ?c1 = pending ?c1 \<and> \<not> in_transaction ?c1" by (simp add: commit_def)
      have step: "insert_edges_loop ((i, u, v) # rest) edges_data edge_set c
                    = insert_edges_loop rest [] (insert ?pair edge_set) ?c1"
        using seen True c1 by (simp add: Let_def)
      from "2.IH"(2) [OF refl refl refl seen refl refl True, unfolded c1, OF p1 p2 p3]
      show ?thesis
        unfolding step using seen by (simp add: commit_def)
    next
      case False
      have p1: "distinct (map edge_id (edges_tbl (pending c) @ ?ed @
                  kept_edge_rows (insert ?pair edge_set) rest))"
        using "2.prems"(1) seen by auto
      have p2: "distinct (map (\<lambda>e. (edge_source e, edge_target e))
                  (edges_tbl (pending c) @ ?ed @ kept_edge_rows (insert ?pair edge_set) rest))"
        using "2.prems"(2) seen by auto
      have step: "insert_edges_loop ((i, u, v) # rest) edges_data edge_set c
                    = insert_edges_loop rest ?ed (insert ?pair edge_set) c"
        using seen False by (simp add: Let_def)
      from "2.IH"(3) [OF refl refl refl seen refl refl False p1 p2 "2.prems"(3)]
      show ?thesis
        unfolding step using seen by simp
    qed
  qed
qed

lemma kept_edge_rows_ids: "edge_id ` set (kept_edge_rows seen es) \<subseteq> fst ` set es"
  by (induction seen es rule: kept_edge_rows.induct) auto

lemma kept_edge_rows_distinct_ids:
  "distinct (map fst es) \<Longrightarrow> distinct (map edge_id (kept_edge_rows seen es))"
proof (induction seen es rule: kept_edge_rows.induct)
  case (1 seen)
  then show ?case by simp
next
  case (2 seen i u v rest)
  then show ?case using kept_edge_rows_ids [of "insert (sorted_pair (escape u) (escape v)) seen" rest]
    by auto
qed

lemma kept_edge_rows_unseen:
  "r \<in> set (kept_edge_rows seen es) \<Longrightarrow> sorted_pair (edge_source r) (edge_target r) \<notin> seen"
  by (induction seen es rule: kept_edge_rows.induct) (auto split: if_splits)

lemma kept_edge_rows_distinct_pairs:
  "distinct (map (\<lambda>r. sorted_pair (edge_source r) (edge_target r)) (kept_edge_rows seen es))"
proof (induction seen es rule: kept_edge_rows.induct)
  case (1 seen)
  then show ?case by simp
next
  case (2 seen i u v rest)
  let ?pair = "sorted_pair (escape u) (escape v)"
  show ?case
  proof (cases "?pair \<in> seen")
    case True
    with 2 show ?thesis by simp
  next
    case False
    have "?pair \<notin> (\<lambda>r. sorted_pair (edge_source r) (edge_target r))
                    ` set (kept_edge_rows (insert ?pair seen) rest)"
    proof
      assume "?pair \<in> (\<lambda>r. sorted_pair (edge_source r) (edge_target r))
                      ` set (kept_edge_rows (insert ?pair seen) rest)"
      then obtain r where "r \<in> set (kept_edge_rows (insert ?pair seen) rest)"
        and "sorted_pair (edge_source r) (edge_target r) = ?pair"
        by auto
      with kept_edge_rows_unseen [of r "insert ?pair seen" rest] show False by simp
    qed
    with False "2.IH"(2) show ?thesis by simp
  qed
qed

lemma distinct_map_comp: "distinct (map (g \<circ> f) xs) \<Longrightarrow> distinct (map f xs)"
  by (induction xs) auto

lemma kept_edge_rows_distinct_source_target:
  "distinct (map (\<lambda>r. (edge_source r, edge_target r)) (kept_edge_rows seen es))"
proof -
  have "distinct (map ((\<lambda>p. sorted_pair (fst p) (snd p)) \<circ> (\<lambda>r. (edge_source r, edge_target r)))
          (kept_edge_rows seen es))"
    using kept_edge_rows_distinct_pairs [of seen es] by (simp add: comp_def)
  then show ?thesis by (rule distinct_map_comp)
qed

lemma insert_edges_ok:
  assumes "committed c = pending c \<and> \<not> in_transaction c" and "edges_tbl (pending c) = []"
  shows "insert_edges G c =
           \<lparr>committed = (pending c)\<lparr>edges_tbl := kept_edge_rows {} (enumerate 0 (edges G))\<rparr>,
            pending = (pending c)\<lparr>edges_tbl := kept_edge_rows {} (enumerate 0 (edges G))\<rparr>,
            in_transaction = False\<rparr>"
proof -
  have "distinct (map edge_id (edges_tbl (pending c) @ [] @
          kept_edge_rows {} (enumerate 0 (edges G))))"
    using assms(2) by (simp add: kept_edge_rows_distinct_ids)
  moreover have "distinct (map (\<lambda>e. (edge_source e, edge_target e))
          (edges_tbl (pending c) @ [] @ kept_edge_rows {} (enumerate 0 (edges G))))"
    using assms(2) by (simp add: kept_edge_rows_distinct_source_target)
  ultimately show ?thesis
    unfolding insert_edges_def using assms
    by (subst insert_edges_loop_flush) simp_all
qed

lemma distinct_find_important_nodes:
  assumes "distinct (nodes G)"
  shows "distinct (find_important_nodes nx G ''degree'' top_n)"
proof -
  have "distinct (map fst (degree_dict G))"
    using assms by (simp add: degree_dict_def comp_def)
  then have "distinct (map fst (sorted_reverse snd (degree_dict G)))"
    by (simp add: distinct_sorted_reverse_fst)
  then have "distinct (map fst (take k (sorted_reverse snd (degree_dict G))))" for k
    by (simp add: take_map [symmetric])
  then show ?thesis
    by (simp add: find_important_nodes_degree py_slice_to_def)
qed

text \<open>The definitions a pass unfolds to on a concrete graph.\<close>

lemmas preprocess_defs =
  preprocess_graph_def connect_def insert_nodes_def insert_edges_def Let_def node_row_of_def
  degree_def batch_size_def fresh_db_def commit_def begin_transaction_def sorted_pair_def
  executemany_insert_nodes_def executemany_insert_or_ignore_edges_def
  executemany_insert_important_def executemany_insert_stats_def
  create_important_nodes_def create_graph_stats_def create_table_def
  find_important_nodes_def find_important_nodes_run_def py_slice_to_def sorted_reverse_def
  degree_dict_def

lemma preprocess_graph_ok:
  assumes "wf_graph G" and "nodes G \<noteq> []"
  shows "preprocess_graph nx G db_file = (Inr (), Some (ingested nx G))"
proof -
  have dn: "distinct (nodes G)" using assms(1) by (simp add: wf_graph_def)
  define d1 where "d1 = fresh_db\<lparr>nodes_tbl := map (node_row_of G) (nodes G)\<rparr>"
  define c1 where "c1 = \<lparr>committed = d1, pending = d1, in_transaction = False\<rparr>"
  define d2 where "d2 = d1\<lparr>edges_tbl := kept_edge_rows {} (enumerate 0 (edges G))\<rparr>"
  define c2 where "c2 = \<lparr>committed = d2, pending = d2, in_transaction = False\<rparr>"
  define d3 where "d3 = d2\<lparr>important_nodes_tbl := Some []\<rparr>"
  define c3 where "c3 = \<lparr>committed = d3, pending = d3, in_transaction = False\<rparr>"
  define imp where "imp = map escape (find_important_nodes nx G ''degree'' 50)"
  define c4 where "c4 = c3\<lparr>pending := d3\<lparr>important_nodes_tbl := Some imp\<rparr>,
                           in_transaction := True\<rparr>"
  define c5 where "c5 = c4\<lparr>pending := (pending c4)\<lparr>graph_stats_tbl := Some []\<rparr>\<rparr>"
  define stats where "stats =
     [(''total_nodes'', Count (length (nodes G))),
      (''total_edges'', Count (length (edges G))),
      (''avg_degree'',
         Average (of_nat (sum_list (map (degree G) (nodes G))) / of_nat (length (nodes G))))]"
  define c6 where "c6 = c5\<lparr>pending := (pending c5)\<lparr>graph_stats_tbl := Some stats\<rparr>,
                           in_transaction := True\<rparr>"
  have c0: "connect (if db_file \<noteq> None then None else db_file) = connect None"
    by simp
  have n: "insert_nodes G (connect None) = (Inr (), c1)"
    unfolding c1_def d1_def using dn by (rule insert_nodes_ok)
  have "insert_edges G c1 =
          \<lparr>committed = (pending c1)\<lparr>edges_tbl := kept_edge_rows {} (enumerate 0 (edges G))\<rparr>,
           pending = (pending c1)\<lparr>edges_tbl := kept_edge_rows {} (enumerate 0 (edges G))\<rparr>,
           in_transaction = False\<rparr>"
    by (rule insert_edges_ok) (simp_all add: c1_def d1_def fresh_db_def)
  then have e: "insert_edges G c1 = c2"
    by (simp add: c2_def d2_def c1_def)
  have t: "create_important_nodes c2 = c3"
    by (simp add: create_important_nodes_def create_table_def c2_def c3_def d3_def d2_def d1_def
        fresh_db_def)
  have "distinct imp"
    unfolding imp_def using distinct_find_important_nodes [OF dn]
    by (simp add: distinct_map inj_on_def)
  then have "distinct ([] @ imp)" by simp
  moreover have "important_nodes_tbl (pending c3) = Some []"
    by (simp add: c3_def d3_def)
  ultimately have "executemany_insert_important imp c3 =
      (Inr (), c3\<lparr>pending := (pending c3)\<lparr>important_nodes_tbl := Some ([] @ imp)\<rparr>,
                  in_transaction := True\<rparr>)"
    by (rule executemany_insert_important_ok [rotated])
  then have i: "executemany_insert_important imp c3 = (Inr (), c4)"
    by (simp add: c4_def c3_def d3_def)
  have g: "create_graph_stats c4 = c5"
    by (simp add: create_graph_stats_def create_table_def c5_def c4_def c3_def d3_def d2_def
        d1_def fresh_db_def)
  have "graph_stats_tbl (pending c5) = Some []"
    by (simp add: c5_def)
  moreover have "distinct (map fst ([] @ stats))"
    by (simp add: stats_def)
  ultimately have "executemany_insert_stats stats c5 =
      (Inr (), c5\<lparr>pending := (pending c5)\<lparr>graph_stats_tbl := Some ([] @ stats)\<rparr>,
                  in_transaction := True\<rparr>)"
    by (rule executemany_insert_stats_ok)
  then have st: "executemany_insert_stats stats c5 = (Inr (), c6)"
    by (simp add: c6_def)
  have "preprocess_graph nx G db_file = (Inr (), Some (committed (commit c6)))"
    unfolding preprocess_graph_def c0 Let_def n imp_def [symmetric] stats_def [symmetric]
    using assms(2) by (simp add: e t i g st)
  also have "\<dots> = (Inr (), Some (ingested nx G))"
    by (simp add: commit_def c6_def c5_def c4_def c3_def d3_def d2_def d1_def imp_def stats_def
        ingested_def fresh_db_def)
  finally show ?thesis .
qed

text \<open>
  The file a pass over a graph without nodes leaves: the tables \<^verbatim>\<open>nodes\<close>, \<^verbatim>\<open>edges\<close>
  and \<^verbatim>\<open>important_nodes\<close>, empty, and no table \<^verbatim>\<open>graph_stats\<close> (its creation is
  rolled back with the transaction the last \<^verbatim>\<open>executemany\<close> opened).
\<close>

lemma preprocess_graph_empty:
  assumes "wf_graph G" and "nodes G = []"
  shows "preprocess_graph nx G db_file =
           (Inl ZeroDivisionError, Some (fresh_db\<lparr>important_nodes_tbl := Some []\<rparr>))"
proof -
  from assms have e: "edges G = []"
    by (cases "edges G") (auto simp: wf_graph_def)
  show ?thesis
    using assms(2) e
    by (simp add: preprocess_graph_def connect_def insert_nodes_def insert_edges_def
        find_important_nodes_def find_important_nodes_run_def degree_dict_def sorted_reverse_def
        py_slice_to_def fresh_db_def create_important_nodes_def create_graph_stats_def
        create_table_def executemany_insert_important_def begin_transaction_def)
qed

lemma kept_edge_rows_filter:
  "kept_edge_rows (set (map (\<lambda>(u, v). sorted_pair (escape u) (escape v)) pre))
       (enumerate (length pre) es)
   = map edge_row_of
       (filter (\<lambda>(i, e). (case e of (u, v) \<Rightarrow> sorted_pair (escape u) (escape v))
                            \<notin> set (map (\<lambda>(u, v). sorted_pair (escape u) (escape v))
                                      (take i (pre @ es))))
          (enumerate (length pre) es))"
proof (induction es arbitrary: pre)
  case Nil
  then show ?case by simp
next
  case (Cons e es)
  obtain u v where e: "e = (u, v)" by (cases e)
  have ih: "kept_edge_rows (set (map (\<lambda>(u, v). sorted_pair (escape u) (escape v)) (pre @ [e])))
       (enumerate (Suc (length pre)) es)
   = map edge_row_of
       (filter (\<lambda>(i, e'). (case e' of (u, v) \<Rightarrow> sorted_pair (escape u) (escape v))
                            \<notin> set (map (\<lambda>(u, v). sorted_pair (escape u) (escape v))
                                      (take i (pre @ e # es))))
          (enumerate (Suc (length pre)) es))"
    using Cons.IH [of "pre @ [e]"] by simp
  show ?case
  proof (cases "sorted_pair (escape u) (escape v)
                  \<in> set (map (\<lambda>(u, v). sorted_pair (escape u) (escape v)) pre)")
    case True
    then have "insert (sorted_pair (escape u) (escape v))
                 (set (map (\<lambda>(u, v). sorted_pair (escape u) (escape v)) pre))
               = set (map (\<lambda>(u, v). sorted_pair (escape u) (escape v)) pre)"
      by auto
    with True ih show ?thesis by (simp add: e)
  next
    case False
    with ih show ?thesis by (simp add: e edge_row_of_def)
  qed
qed

lemma sorted_pair_escape_eq_iff:
  "sorted_pair (escape u) (escape v) = sorted_pair (escape u') (escape v')
     \<longleftrightarrow> endpoints (u, v) = endpoints (u', v')"
  by (auto simp: sorted_pair_eq_iff endpoints_def doubleton_eq_iff)

lemma edge_key_image_iff:
  "(case e of (u, v) \<Rightarrow> sorted_pair (escape u) (escape v))
       \<in> (\<lambda>(u, v). sorted_pair (escape u) (escape v)) ` set xs
   \<longleftrightarrow> endpoints e \<in> endpoints ` set xs"
proof -
  define key where "key = (\<lambda>(u :: string, v :: string). sorted_pair (escape u) (escape v))"
  have k: "key a = key b \<longleftrightarrow> endpoints a = endpoints b" for a b
    by (cases a, cases b) (simp add: key_def sorted_pair_escape_eq_iff)
  have "key e \<in> key ` set xs \<longleftrightarrow> endpoints e \<in> endpoints ` set xs"
  proof
    assume "key e \<in> key ` set xs"
    then obtain x where "x \<in> set xs" "key e = key x" by blast
    then show "endpoints e \<in> endpoints ` set xs" using k by blast
  next
    assume "endpoints e \<in> endpoints ` set xs"
    then obtain x where "x \<in> set xs" "endpoints e = endpoints x" by blast
    then show "key e \<in> key ` set xs" using k by blast
  qed
  then show ?thesis by (simp add: key_def)
qed

lemma edges_tbl_ingested:
  "edges_tbl (ingested nx G) =
     map edge_row_of
       (filter (\<lambda>(i, e). endpoints e \<notin> endpoints ` set (take i (edges G)))
          (enumerate 0 (edges G)))"
proof -
  have "filter (\<lambda>(i, e). (case e of (u, v) \<Rightarrow> sorted_pair (escape u) (escape v))
                            \<notin> set (map (\<lambda>(u, v). sorted_pair (escape u) (escape v))
                                      (take i ([] @ edges G))))
          (enumerate (length ([] :: (string \<times> string) list)) (edges G))
        = filter (\<lambda>(i, e). endpoints e \<notin> endpoints ` set (take i (edges G)))
          (enumerate 0 (edges G))"
    by (rule filter_cong) (auto simp: edge_key_image_iff)
  with kept_edge_rows_filter [of "[]" "edges G"] show ?thesis
    by (simp add: ingested_def)
qed

lemma ingested_one_row_per_pair:
  assumes "r1 \<in> set (edges_tbl (ingested nx G))" and "r2 \<in> set (edges_tbl (ingested nx G))"
    and "row_endpoints r1 = row_endpoints r2"
  shows "r1 = r2"
proof -
  let ?key = "\<lambda>r. sorted_pair (edge_source r) (edge_target r)"
  have "?key r1 = ?key r2"
    using assms(3) by (simp add: sorted_pair_eq_iff row_endpoints_def)
  moreover have "inj_on ?key (set (edges_tbl (ingested nx G)))"
    using kept_edge_rows_distinct_pairs [of "{}" "enumerate 0 (edges G)"]
    by (simp add: ingested_def distinct_map)
  ultimately show ?thesis using assms(1,2) by (auto dest: inj_onD)
qed

lemma kept_edge_rows_covers:
  assumes "(i, u, v) \<in> set es"
  shows "sorted_pair (escape u) (escape v) \<in> seen \<or>
         (\<exists>r\<in>set (kept_edge_rows seen es).
            sorted_pair (edge_source r) (edge_target r) = sorted_pair (escape u) (escape v))"
  using assms
proof (induction seen es rule: kept_edge_rows.induct)
  case (1 seen)
  then show ?case by simp
next
  case (2 seen j a b rest)
  let ?pair = "sorted_pair (escape a) (escape b)"
  show ?case
  proof (cases "?pair \<in> seen")
    case True
    with 2 show ?thesis by auto
  next
    case False
    show ?thesis
    proof (cases "(i, u, v) = (j, a, b)")
      case True
      with False show ?thesis by simp
    next
      case other: False
      with "2.prems" have "(i, u, v) \<in> set rest" by auto
      from "2.IH"(2) [OF False this] False show ?thesis by auto
    qed
  qed
qed

lemma ingested_covers_edges:
  assumes "e \<in> set (edges G)"
  shows "\<exists>r\<in>set (edges_tbl (ingested nx G)). row_endpoints r = escape ` endpoints e"
proof -
  obtain u v where e: "e = (u, v)" by (cases e)
  from assms obtain i where "i < length (edges G)" and "edges G ! i = (u, v)"
    unfolding e by (auto simp: in_set_conv_nth)
  then have "(i, u, v) \<in> set (enumerate 0 (edges G))"
    by (simp add: in_set_enumerate_eq)
  from kept_edge_rows_covers [OF this, of "{}"] obtain r
    where "r \<in> set (kept_edge_rows {} (enumerate 0 (edges G)))"
      and "sorted_pair (edge_source r) (edge_target r) = sorted_pair (escape u) (escape v)"
    by auto
  then show ?thesis
    by (auto simp: ingested_def e sorted_pair_eq_iff row_endpoints_def endpoints_def
        intro!: bexI [of _ r])
qed

lemma ingested_referential:
  assumes "wf_graph G" and "r \<in> set (edges_tbl (ingested nx G))"
  shows "edge_source r \<in> node_id ` set (nodes_tbl (ingested nx G)) \<and>
         edge_target r \<in> node_id ` set (nodes_tbl (ingested nx G))"
proof -
  have "edge_source r \<in> escape ` set (nodes G) \<and> edge_target r \<in> escape ` set (nodes G)"
    if "r \<in> set (kept_edge_rows seen es)"
      and "\<forall>(i, u, v)\<in>set es. u \<in> set (nodes G) \<and> v \<in> set (nodes G)" for seen es
    using that by (induction seen es rule: kept_edge_rows.induct) (auto split: if_splits)
  moreover have "\<forall>(i, u, v)\<in>set (enumerate 0 (edges G)). u \<in> set (nodes G) \<and> v \<in> set (nodes G)"
    using assms(1)
    by (auto simp: wf_graph_def list_all_iff enumerate_eq_zip dest!: set_zip_rightD)
  moreover have "node_id ` set (nodes_tbl (ingested nx G)) = escape ` set (nodes G)"
    by (auto simp: ingested_def node_row_of_def image_iff)
  ultimately show ?thesis using assms(2) by (simp add: ingested_def)
qed

lemma kept_edge_rows_all:
  assumes "distinct (map (\<lambda>(i, e). endpoints e) es)"
    and "\<forall>(i, u, v)\<in>set es. sorted_pair (escape u) (escape v) \<notin> seen"
  shows "kept_edge_rows seen es = map edge_row_of es"
  using assms
proof (induction seen es rule: kept_edge_rows.induct)
  case (1 seen)
  then show ?case by simp
next
  case (2 seen i u v rest)
  let ?pair = "sorted_pair (escape u) (escape v)"
  from "2.prems"(2) have unseen: "?pair \<notin> seen" by simp
  have "\<forall>(j, a, b)\<in>set rest. sorted_pair (escape a) (escape b) \<notin> insert ?pair seen"
  proof (clarify)
    fix j a b
    assume in_rest: "(j, a, b) \<in> set rest"
      and "sorted_pair (escape a) (escape b) \<in> insert ?pair seen"
    with "2.prems"(2) have "sorted_pair (escape a) (escape b) = ?pair" by auto
    then have "endpoints (a, b) = endpoints (u, v)"
      by (simp add: sorted_pair_escape_eq_iff)
    moreover have "endpoints (a, b) \<noteq> endpoints (u, v)"
    proof -
      from "2.prems"(1) have "endpoints (u, v) \<notin> (\<lambda>(i, e). endpoints e) ` set rest"
        by simp
      moreover from in_rest
      have "(\<lambda>(i, e). endpoints e) (j, a, b) \<in> (\<lambda>(i, e). endpoints e) ` set rest"
        by (rule imageI)
      ultimately show ?thesis by auto
    qed
    ultimately show False by simp
  qed
  moreover from "2.prems"(1) have "distinct (map (\<lambda>(i, e). endpoints e) rest)" by simp
  ultimately have "kept_edge_rows (insert ?pair seen) rest = map edge_row_of rest"
    using unseen by (intro "2.IH"(2)) simp_all
  with unseen show ?case by (simp add: edge_row_of_def)
qed

lemma map_enumerate_snd: "map (\<lambda>(i, e). f e) (enumerate n xs) = map f xs"
  by (induction xs arbitrary: n) simp_all

lemma length_filter_enumerate_snd:
  "length (filter (\<lambda>x. P (snd x)) (enumerate n xs)) = length (filter P xs)"
  by (induction xs arbitrary: n) simp_all

lemma edges_tbl_ingested_simple:
  assumes "distinct (map endpoints (edges G))"
  shows "edges_tbl (ingested nx G) = map edge_row_of (enumerate 0 (edges G))"
proof -
  have "distinct (map (\<lambda>(i, e). endpoints e) (enumerate 0 (edges G)))"
    using assms by (simp only: map_enumerate_snd)
  then show ?thesis
    by (simp add: ingested_def kept_edge_rows_all)
qed

lemma length_filter_disj:
  assumes "\<forall>x\<in>set xs. \<not> (P x \<and> Q x)"
  shows "length (filter (\<lambda>x. P x \<or> Q x) xs) = length (filter P xs) + length (filter Q xs)"
  using assms by (induction xs) auto

lemma incident_rows_simple:
  assumes "simple_graph G"
  shows "length (incident_rows (ingested nx G) (escape n)) = degree G n"
proof -
  have d: "distinct (map endpoints (edges G))"
    and noloop: "\<forall>(u, v)\<in>set (edges G). u \<noteq> v"
    using assms by (simp_all add: simple_graph_def list_all_iff)
  have "incident_rows (ingested nx G) (escape n)
          = map edge_row_of
              (filter (\<lambda>x. fst (snd x) = n \<or> snd (snd x) = n) (enumerate 0 (edges G)))"
    by (simp add: incident_rows_def edges_tbl_ingested_simple [OF d] filter_map comp_def
        edge_row_of_def case_prod_beta)
  then have "length (incident_rows (ingested nx G) (escape n))
          = length (filter (\<lambda>x. fst (snd x) = n \<or> snd (snd x) = n) (enumerate 0 (edges G)))"
    by simp
  also have "\<dots> = length (filter (\<lambda>e. fst e = n \<or> snd e = n) (edges G))"
    by (rule length_filter_enumerate_snd)
  also have "\<dots> = length (filter (\<lambda>e. fst e = n) (edges G))
                  + length (filter (\<lambda>e. snd e = n) (edges G))"
    using noloop by (intro length_filter_disj) auto
  also have "\<dots> = degree G n"
    by (simp add: degree_def case_prod_unfold)
  finally show ?thesis .
qed

text \<open>
  Claim C3, as amended.  A pass over a graph with at least one node succeeds, and the
  degree stored for a node is \<^verbatim>\<open>G.degree(node)\<close> of the loaded graph: every edge end
  at the node counts, before any deduplication.  It is the number of persisted edge
  rows at the node when the graph has no self-loop and no two edges on the same
  unordered pair of nodes.
\<close>

theorem stored_degree_is_graph_degree:
  assumes "wf_graph G" and "nodes G \<noteq> []"
  shows "\<exists>d. preprocess_graph nx G db_file = (Inr (), Some d) \<and>
           nodes_tbl d = map (node_row_of G) (nodes G) \<and>
           (simple_graph G \<longrightarrow>
              (\<forall>r\<in>set (nodes_tbl d). node_degree r = length (incident_rows d (node_id r))))"
proof -
  have "nodes_tbl (ingested nx G) = map (node_row_of G) (nodes G)"
    by (simp add: ingested_def)
  moreover have "\<forall>r\<in>set (nodes_tbl (ingested nx G)).
                   node_degree r = length (incident_rows (ingested nx G) (node_id r))"
    if "simple_graph G"
    using incident_rows_simple [OF that, of nx] by (auto simp: ingested_def node_row_of_def)
  ultimately show ?thesis
    using preprocess_graph_ok [OF assms, of nx db_file] by blast
qed

lemma wf_reversed_pair_graph: "wf_graph reversed_pair_graph"
  by (simp add: wf_graph_def reversed_pair_graph_def)

lemma wf_az_graph: "wf_graph az_graph"
  by (simp add: wf_graph_def az_graph_def)

lemma wf_empty_graph: "wf_graph empty_graph"
  by (simp add: wf_graph_def empty_graph_def)

lemma simple_path_graph: "simple_graph path_graph"
  by (simp add: simple_graph_def path_graph_def endpoints_def doubleton_eq_iff)

text \<open>The theorem at the path graph.\<close>

theorem stored_degree_is_graph_degree_witness:
  "wf_graph path_graph \<and> nodes path_graph \<noteq> [] \<and> simple_graph path_graph \<and>
   (\<exists>d. preprocess_graph nx_failing path_graph None = (Inr (), Some d) \<and>
      nodes_tbl d = map (node_row_of path_graph) (nodes path_graph) \<and>
      (\<forall>r\<in>set (nodes_tbl d). node_degree r = length (incident_rows d (node_id r))))"
  using stored_degree_is_graph_degree [OF wf_path_graph, of nx_failing None] simple_path_graph
    wf_path_graph
  by (simp add: path_graph_def)

lemma reversed_pair_db_ingested:
  "preprocess_graph nx_failing reversed_pair_graph None = (Inr (), Some reversed_pair_db)"
  by (simp add: preprocess_defs reversed_pair_graph_def reversed_pair_db_def)

lemma loop_db_ingested:
  "preprocess_graph nx_failing loop_graph None = (Inr (), Some loop_db)"
  by (simp add: preprocess_defs loop_graph_def loop_db_def)

text \<open>
  Claim C3 as stated fails on the edge stream \<^verbatim>\<open>(A, B), (B, A)\<close>: node \<^verbatim>\<open>A\<close> is stored
  with degree 2 and one edge row at \<^verbatim>\<open>A\<close> is persisted.  It fails on a self-loop as
  well: networkx counts it twice in the degree, and it is one edge row.
\<close>

theorem stored_degree_counterexample:
  "preprocess_graph nx_failing reversed_pair_graph None = (Inr (), Some reversed_pair_db) \<and>
   nodes_tbl reversed_pair_db
     = [\<lparr>node_id = ''A'', node_label = ''A'', node_degree = 2\<rparr>,
        \<lparr>node_id = ''B'', node_label = ''B'', node_degree = 2\<rparr>] \<and>
   incident_rows reversed_pair_db ''A''
     = [\<lparr>edge_id = 0, edge_source = ''A'', edge_target = ''B''\<rparr>] \<and>
   preprocess_graph nx_failing loop_graph None = (Inr (), Some loop_db) \<and>
   nodes_tbl loop_db = [\<lparr>node_id = ''a'', node_label = ''a'', node_degree = 2\<rparr>] \<and>
   incident_rows loop_db ''a'' = [\<lparr>edge_id = 0, edge_source = ''a'', edge_target = ''a''\<rparr>]"
  using reversed_pair_db_ingested loop_db_ingested
  by (simp add: incident_rows_def reversed_pair_db_def loop_db_def)

text \<open>
  Claim C2, as amended.  A pass that finds no node fails, and it does not leave the
  previous store in place: the pass removes the existing database file before it
  writes, so its outcome is the same whatever the file held, and a previous store that
  held a node is not what the file holds afterwards.
\<close>

theorem zero_nodes_replaces_store:
  assumes "wf_graph G" and "nodes G = []"
  shows "isl (fst (preprocess_graph nx G db_file)) \<and>
         preprocess_graph nx G db_file = preprocess_graph nx G None \<and>
         (\<forall>d0. nodes_tbl d0 \<noteq> [] \<longrightarrow> snd (preprocess_graph nx G (Some d0)) \<noteq> Some d0)"
proof -
  have "snd (preprocess_graph nx G (Some d0)) \<noteq> Some d0" if "nodes_tbl d0 \<noteq> []" for d0
  proof
    assume "snd (preprocess_graph nx G (Some d0)) = Some d0"
    then have "d0 = fresh_db\<lparr>important_nodes_tbl := Some []\<rparr>"
      using preprocess_graph_empty [OF assms, of nx "Some d0"] by simp
    then have "nodes_tbl d0 = []" by (simp add: fresh_db_def)
    with that show False by simp
  qed
  then show ?thesis
    using preprocess_graph_empty [OF assms] by simp
qed

text \<open>The theorem at the empty graph, run over the store of the path graph.\<close>

theorem zero_nodes_replaces_store_witness:
  "wf_graph empty_graph \<and> nodes empty_graph = [] \<and> nodes_tbl path_db \<noteq> [] \<and>
   isl (fst (preprocess_graph nx_failing empty_graph (Some path_db))) \<and>
   preprocess_graph nx_failing empty_graph (Some path_db)
     = preprocess_graph nx_failing empty_graph None \<and>
   snd (preprocess_graph nx_failing empty_graph (Some path_db)) \<noteq> Some path_db"
proof -
  have n: "nodes empty_graph = []" by (simp add: empty_graph_def)
  have p: "nodes_tbl path_db \<noteq> []" by (simp add: path_db_def)
  from zero_nodes_replaces_store [OF wf_empty_graph n, of nx_failing "Some path_db"]
  show ?thesis using wf_empty_graph n p by blast
qed

text \<open>
  Claim C2 as stated fails: over the store of the path graph, a pass that finds no node
  ends in \<^verbatim>\<open>ZeroDivisionError\<close> (from \<^verbatim>\<open>sum(...) / len(G)\<close>; the code has no
  \<^verbatim>\<open>EmptyGraph\<close> error), and the file it leaves is not the previous store: it holds
  three empty tables and no table \<^verbatim>\<open>graph_stats\<close>.
\<close>

theorem zero_nodes_counterexample:
  "preprocess_graph nx_failing empty_graph (Some path_db)
     = (Inl ZeroDivisionError, Some crashed_db) \<and>
   path_db \<noteq> crashed_db"
proof -
  have "nodes_tbl path_db \<noteq> nodes_tbl crashed_db"
    by (simp add: path_db_def crashed_db_def)
  then have "path_db \<noteq> crashed_db" by auto
  moreover have "nodes empty_graph = []" by (simp add: empty_graph_def)
  ultimately show ?thesis
    using preprocess_graph_empty [OF wf_empty_graph] by (simp add: crashed_db_def fresh_db_def)
qed

text \<open>
  Claim C5.  Whatever edges the graph yields, no two persisted edge rows join the same
  unordered pair of nodes, and the rows persisted are exactly those of the edges whose
  unordered pair has not occurred earlier in \<^verbatim>\<open>G.edges()\<close>: the first occurrence is
  kept, with its index as id.
\<close>

theorem one_row_per_unordered_pair:
  assumes "wf_graph G"
  shows "\<exists>d. snd (preprocess_graph nx G db_file) = Some d \<and>
           (\<forall>r1\<in>set (edges_tbl d). \<forall>r2\<in>set (edges_tbl d).
              row_endpoints r1 = row_endpoints r2 \<longrightarrow> r1 = r2) \<and>
           edges_tbl d =
             map edge_row_of
               (filter (\<lambda>(i, e). endpoints e \<notin> endpoints ` set (take i (edges G)))
                  (enumerate 0 (edges G)))"
proof (cases "nodes G = []")
  case True
  with assms have "edges G = []"
    by (cases "edges G") (auto simp: wf_graph_def)
  with preprocess_graph_empty [OF assms True, of nx db_file] show ?thesis
    by (simp add: fresh_db_def)
next
  case False
  have "snd (preprocess_graph nx G db_file) = Some (ingested nx G)"
    using preprocess_graph_ok [OF assms False, of nx db_file] by simp
  moreover have "\<forall>r1\<in>set (edges_tbl (ingested nx G)). \<forall>r2\<in>set (edges_tbl (ingested nx G)).
              row_endpoints r1 = row_endpoints r2 \<longrightarrow> r1 = r2"
    using ingested_one_row_per_pair by blast
  ultimately show ?thesis
    using edges_tbl_ingested [of nx G] by blast
qed

text \<open>The theorem at Scenario B: of \<^verbatim>\<open>(A, B), (B, A)\<close> exactly one edge row is persisted.\<close>

theorem one_row_per_unordered_pair_witness:
  "wf_graph reversed_pair_graph \<and>
   (\<exists>d. snd (preprocess_graph nx_failing reversed_pair_graph None) = Some d \<and>
      edges_tbl d = [\<lparr>edge_id = 0, edge_source = ''A'', edge_target = ''B''\<rparr>])"
  using one_row_per_unordered_pair [OF wf_reversed_pair_graph, of nx_failing None]
    wf_reversed_pair_graph
  by (auto simp: reversed_pair_graph_def edge_row_of_def endpoints_def doubleton_eq_iff)

text \<open>
  Claim C6, as amended.  The edge phase filters by repeated unordered pair only and
  reports no counts: the unordered endpoint pair of every edge of the graph is that of a
  persisted row, both endpoints of every persisted row are persisted nodes (they are
  nodes of the graph, as the endpoints of every networkx edge are), and a pass over a
  graph with nodes returns nothing but \<^verbatim>\<open>None\<close>.
\<close>

theorem no_endpoint_filter:
  assumes "wf_graph G"
  shows "\<exists>d. snd (preprocess_graph nx G db_file) = Some d \<and>
           (\<forall>e\<in>set (edges G). \<exists>r\<in>set (edges_tbl d). row_endpoints r = escape ` endpoints e) \<and>
           (\<forall>r\<in>set (edges_tbl d).
              edge_source r \<in> node_id ` set (nodes_tbl d) \<and>
              edge_target r \<in> node_id ` set (nodes_tbl d)) \<and>
           (nodes G \<noteq> [] \<longrightarrow> fst (preprocess_graph nx G db_file) = Inr ())"
proof (cases "nodes G = []")
  case True
  with assms have "edges G = []"
    by (cases "edges G") (auto simp: wf_graph_def)
  with True preprocess_graph_empty [OF assms True, of nx db_file] show ?thesis
    by (simp add: fresh_db_def)
next
  case False
  have "preprocess_graph nx G db_file = (Inr (), Some (ingested nx G))"
    using assms False by (rule preprocess_graph_ok)
  moreover have "\<forall>e\<in>set (edges G). \<exists>r\<in>set (edges_tbl (ingested nx G)).
                   row_endpoints r = escape ` endpoints e"
    using ingested_covers_edges by blast
  moreover have "\<forall>r\<in>set (edges_tbl (ingested nx G)).
              edge_source r \<in> node_id ` set (nodes_tbl (ingested nx G)) \<and>
              edge_target r \<in> node_id ` set (nodes_tbl (ingested nx G))"
    using ingested_referential [OF assms] by blast
  ultimately show ?thesis by simp
qed

text \<open>The theorem at Scenario C: the edge \<^verbatim>\<open>(A, Z)\<close> is persisted.\<close>

theorem no_endpoint_filter_witness:
  "wf_graph az_graph \<and> nodes az_graph \<noteq> [] \<and>
   (\<exists>d. snd (preprocess_graph nx_failing az_graph None) = Some d \<and>
      (\<exists>r\<in>set (edges_tbl d). row_endpoints r = escape ` endpoints (''A'', ''Z'')) \<and>
      (\<forall>r\<in>set (edges_tbl d).
          edge_source r \<in> node_id ` set (nodes_tbl d) \<and>
          edge_target r \<in> node_id ` set (nodes_tbl d))) \<and>
   fst (preprocess_graph nx_failing az_graph None) = Inr ()"
  using no_endpoint_filter [OF wf_az_graph, of nx_failing None] wf_az_graph
  by (auto simp: az_graph_def)

text \<open>
  Claim C6 as stated fails: the edge \<^verbatim>\<open>(A, Z)\<close> is persisted, with \<^verbatim>\<open>Z\<close> as a node,
  and the pass returns no counts.  The ingestion code persists the edge even on a node
  view without \<^verbatim>\<open>Z\<close>: it never compares an endpoint with the node set.
\<close>

theorem endpoint_filter_counterexample:
  "preprocess_graph nx_failing az_graph None =
     (Inr (),
      Some \<lparr>nodes_tbl = [\<lparr>node_id = ''A'', node_label = ''A'', node_degree = 1\<rparr>,
                         \<lparr>node_id = ''Z'', node_label = ''Z'', node_degree = 1\<rparr>],
            edges_tbl = [\<lparr>edge_id = 0, edge_source = ''A'', edge_target = ''Z''\<rparr>],
            important_nodes_tbl = Some [''A'', ''Z''],
            graph_stats_tbl = Some [(''total_nodes'', Count 2), (''total_edges'', Count 1),
                               (''avg_degree'', Average 1)]\<rparr>) \<and>
   preprocess_graph nx_failing dangling_graph None =
     (Inr (),
      Some \<lparr>nodes_tbl = [\<lparr>node_id = ''A'', node_label = ''A'', node_degree = 1\<rparr>],
            edges_tbl = [\<lparr>edge_id = 0, edge_source = ''A'', edge_target = ''Z''\<rparr>],
            important_nodes_tbl = Some [''A''],
            graph_stats_tbl = Some [(''total_nodes'', Count 1), (''total_edges'', Count 1),
                               (''avg_degree'', Average 1)]\<rparr>)"
  by (simp add: preprocess_defs az_graph_def dangling_graph_def)


section \<open>Label search\<close>

lemma like_match_percent_any: "like_match ''%'' s"
  by (induction s) simp_all

lemma like_match_literal_prefix:
  assumes "CHR ''%'' \<notin> set q" and "CHR ''_'' \<notin> set q"
  shows "like_match (q @ ''%'') s \<longleftrightarrow> prefix (map ascii_lower q) (map ascii_lower s)"
  using assms
proof (induction q arbitrary: s)
  case Nil
  then show ?case by (simp add: like_match_percent_any)
next
  case (Cons p ps)
  then have lit: "CHR ''%'' \<notin> set ps" "CHR ''_'' \<notin> set ps"
    and p: "p \<noteq> CHR ''%''" "p \<noteq> CHR ''_''"
    by auto
  show ?case
  proof (cases s)
    case Nil
    with p show ?thesis by simp
  next
    case (Cons c cs)
    with p Cons.IH [OF lit, of cs] show ?thesis by simp
  qed
qed

lemma like_match_literal_contains:
  assumes "CHR ''%'' \<notin> set q" and "CHR ''_'' \<notin> set q"
  shows "like_match (''%'' @ q @ ''%'') s \<longleftrightarrow> sublist (map ascii_lower q) (map ascii_lower s)"
proof (induction s)
  case Nil
  have "like_match (q @ ''%'') [] \<longleftrightarrow> q = []"
    using like_match_literal_prefix [OF assms, of "[]"] by simp
  then show ?case by simp
next
  case (Cons c cs)
  have "like_match (''%'' @ q @ ''%'') (c # cs)
          \<longleftrightarrow> like_match (q @ ''%'') (c # cs) \<or> like_match (''%'' @ q @ ''%'') cs"
    by simp
  also have "\<dots> \<longleftrightarrow> prefix (map ascii_lower q) (map ascii_lower (c # cs))
                     \<or> sublist (map ascii_lower q) (map ascii_lower cs)"
    using like_match_literal_prefix [OF assms] Cons.IH by simp
  also have "\<dots> \<longleftrightarrow> sublist (map ascii_lower q) (map ascii_lower (c # cs))"
    by (simp add: sublist_Cons_right)
  finally show ?case .
qed

lemma c_string_nul_free: "CHR 0x00 \<notin> set s \<Longrightarrow> c_string s = s"
  by (auto simp: c_string_def takeWhile_eq_all_conv)

lemma like_literal_contains:
  assumes "literal_query q"
  shows "like (''%'' @ q @ ''%'') s
           \<longleftrightarrow> sublist (map ascii_lower q) (map ascii_lower (c_string s))"
proof -
  have "CHR 0x00 \<notin> set (''%'' @ q @ ''%'')"
    using assms by (simp add: literal_query_def)
  then have "c_string (''%'' @ q @ ''%'') = ''%'' @ q @ ''%''"
    by (rule c_string_nul_free)
  then have "like (''%'' @ q @ ''%'') s \<longleftrightarrow> like_match (''%'' @ q @ ''%'') (c_string s)"
    by (simp only: like_def)
  moreover have "CHR ''%'' \<notin> set q" "CHR ''_'' \<notin> set q"
    using assms by (simp_all add: literal_query_def)
  then have "like_match (''%'' @ q @ ''%'') (c_string s)
               \<longleftrightarrow> sublist (map ascii_lower q) (map ascii_lower (c_string s))"
    by (rule like_match_literal_contains)
  ultimately show ?thesis
    by blast
qed

lemma search_nodes_run:
  assumes "2 \<le> length query"
    and "utf8_length (''%'' @ query @ ''%'') \<le> like_pattern_limit"
  shows "search_nodes scan d query = Inr (take 10 (search_ordered scan d query))"
proof -
  have "query \<noteq> []" using assms(1) by auto
  with assms show ?thesis by (simp add: search_nodes_def)
qed

lemma search_ordered_rows:
  "distinct (search_ordered scan d query) \<and>
   set (search_ordered scan d query) = set (search_matches scan d query)"
  by (simp add: search_ordered_def search_matches_def)

lemma search_matches_rows:
  assumes "set (scan (nodes_tbl d)) = set (nodes_tbl d)"
  shows "set (search_matches scan d query) =
           {r \<in> set (nodes_tbl d). like (''%'' @ query @ ''%'') (node_label r)}"
  using assms by (auto simp: search_matches_def)

text \<open>
  Claim C4, as amended.  For a query of at least two characters that holds no \<^verbatim>\<open>%\<close>,
  no \<^verbatim>\<open>_\<close> and no NUL, within the pattern length SQLite accepts, and an engine that
  visits every row of the table, a node whose label holds no NUL matches exactly when
  the query occurs in its label as a substring up to the case of ASCII letters.  The
  search returns the first ten matching rows in the order of the statement, hence all
  of them when there are at most ten.
\<close>

theorem search_matches_ignoring_case:
  assumes "2 \<le> length query" and "literal_query query"
    and "utf8_length (''%'' @ query @ ''%'') \<le> like_pattern_limit"
    and "set (scan (nodes_tbl d)) = set (nodes_tbl d)"
  shows "search_nodes scan d query = Inr (take 10 (search_ordered scan d query)) \<and>
         set (search_ordered scan d query) = set (search_matches scan d query) \<and>
         (length (search_matches scan d query) \<le> 10 \<longrightarrow>
            set (take 10 (search_ordered scan d query)) = set (search_matches scan d query)) \<and>
         (\<forall>r. CHR 0x00 \<notin> set (node_label r) \<longrightarrow>
            (r \<in> set (search_matches scan d query) \<longleftrightarrow>
             r \<in> set (nodes_tbl d) \<and>
             sublist (map ascii_lower query) (map ascii_lower (node_label r))))"
proof -
  have run: "search_nodes scan d query = Inr (take 10 (search_ordered scan d query))"
    using assms(1,3) by (rule search_nodes_run)
  have rows: "set (search_ordered scan d query) = set (search_matches scan d query)"
    using search_ordered_rows by blast
  have "length (search_ordered scan d query) = length (search_matches scan d query)"
    by (simp add: search_ordered_def)
  then have all: "set (take 10 (search_ordered scan d query)) = set (search_matches scan d query)"
    if "length (search_matches scan d query) \<le> 10"
    using that rows by simp
  have "r \<in> set (search_matches scan d query) \<longleftrightarrow>
          r \<in> set (nodes_tbl d) \<and>
          sublist (map ascii_lower query) (map ascii_lower (node_label r))"
    if "CHR 0x00 \<notin> set (node_label r)" for r
    using search_matches_rows [of scan d query] assms(4)
      like_literal_contains [OF assms(2), of "node_label r"] c_string_nul_free [OF that]
    by simp
  with run rows all show ?thesis by blast
qed

text \<open>The theorem at the query \<^verbatim>\<open>AB\<close> on a store whose only label is \<^verbatim>\<open>ab\<close>.\<close>

theorem search_matches_ignoring_case_witness:
  "(2::nat) \<le> length ''AB'' \<and> literal_query ''AB'' \<and>
   utf8_length (''%'' @ ''AB'' @ ''%'') \<le> like_pattern_limit \<and>
   set (id (nodes_tbl ab_db)) = set (nodes_tbl ab_db) \<and>
   length (search_matches id ab_db ''AB'') \<le> 10 \<and>
   CHR 0x00 \<notin> set (node_label \<lparr>node_id = ''ab'', node_label = ''ab'', node_degree = 0\<rparr>) \<and>
   search_nodes id ab_db ''AB'' = Inr (take 10 (search_ordered id ab_db ''AB'')) \<and>
   set (search_ordered id ab_db ''AB'') = set (search_matches id ab_db ''AB'') \<and>
   set (take 10 (search_ordered id ab_db ''AB'')) = set (search_matches id ab_db ''AB'') \<and>
   (\<lparr>node_id = ''ab'', node_label = ''ab'', node_degree = 0\<rparr>
      \<in> set (search_matches id ab_db ''AB'') \<longleftrightarrow>
    \<lparr>node_id = ''ab'', node_label = ''ab'', node_degree = 0\<rparr> \<in> set (nodes_tbl ab_db) \<and>
    sublist (map ascii_lower ''AB'') (map ascii_lower ''ab''))"
proof -
  have h: "(2::nat) \<le> length ''AB''" "literal_query ''AB''"
    "utf8_length (''%'' @ ''AB'' @ ''%'') \<le> like_pattern_limit"
    "set (id (nodes_tbl ab_db)) = set (nodes_tbl ab_db)"
    by (simp_all add: literal_query_def utf8_length_def like_pattern_limit_def)
  have l: "length (search_matches id ab_db ''AB'') \<le> 10"
    by (simp add: search_matches_def like_def c_string_def ab_db_def fresh_db_def ascii_lower_def)
  have n: "CHR 0x00 \<notin> set (node_label \<lparr>node_id = ''ab'', node_label = ''ab'', node_degree = 0\<rparr>)"
    by simp
  let ?r = "\<lparr>node_id = ''ab'', node_label = ''ab'', node_degree = 0\<rparr>"
  have c: "search_nodes id ab_db ''AB'' = Inr (take 10 (search_ordered id ab_db ''AB''))"
    "set (search_ordered id ab_db ''AB'') = set (search_matches id ab_db ''AB'')"
    "set (take 10 (search_ordered id ab_db ''AB'')) = set (search_matches id ab_db ''AB'')"
    "?r \<in> set (search_matches id ab_db ''AB'') \<longleftrightarrow>
       ?r \<in> set (nodes_tbl ab_db) \<and>
       sublist (map ascii_lower ''AB'') (map ascii_lower (node_label ?r))"
    using search_matches_ignoring_case [of "''AB''" id ab_db] h l n by blast+
  have "node_label ?r = ''ab''" by simp
  with c(4) have "?r \<in> set (search_matches id ab_db ''AB'') \<longleftrightarrow>
       ?r \<in> set (nodes_tbl ab_db) \<and> sublist (map ascii_lower ''AB'') (map ascii_lower ''ab'')"
    by (simp only:)
  with h l n c(1-3) show ?thesis by blast
qed

text \<open>
  Claim C4 as stated fails: the label \<^verbatim>\<open>ab\<close> is returned for the queries \<^verbatim>\<open>AB\<close>,
  \<^verbatim>\<open>a_\<close> and NUL NUL, none of which occurs in it as a case-sensitive substring, and
  the label \<^verbatim>\<open>a\<close>, NUL, \<^verbatim>\<open>b\<close>, \<^verbatim>\<open>c\<close> is not returned for the query \<^verbatim>\<open>bc\<close>, which
  does occur in it.
\<close>

theorem search_case_sensitive_counterexample:
  "search_nodes id ab_db ''AB'' = Inr [\<lparr>node_id = ''ab'', node_label = ''ab'', node_degree = 0\<rparr>] \<and>
   \<not> sublist ''AB'' ''ab'' \<and>
   search_nodes id ab_db ''a_'' = Inr [\<lparr>node_id = ''ab'', node_label = ''ab'', node_degree = 0\<rparr>] \<and>
   \<not> sublist ''a_'' ''ab'' \<and>
   search_nodes id ab_db [CHR 0x00, CHR 0x00]
     = Inr [\<lparr>node_id = ''ab'', node_label = ''ab'', node_degree = 0\<rparr>] \<and>
   \<not> sublist [CHR 0x00, CHR 0x00] ''ab'' \<and>
   search_nodes id nul_label_db ''bc'' = Inr [] \<and>
   sublist ''bc'' [CHR ''a'', CHR 0x00, CHR ''b'', CHR ''c'']"
  by (simp add: search_nodes_def search_ordered_def search_matches_def like_def c_string_def
      utf8_length_def like_pattern_limit_def ab_db_def nul_label_db_def fresh_db_def
      ascii_lower_def sublist_Cons_right)

lemma search_matches_ordered:
  "sorted_wrt (search_order (search_matches scan d query)) (search_ordered scan d query)"
proof -
  let ?L = "search_matches scan d query"
  have "distinct ?L" by (simp add: search_matches_def)
  then have "sorted_wrt (\<lambda>a b. first_index ?L a < first_index ?L b) ?L"
    by (rule first_index_sorted_wrt)
  then have "sorted_wrt (\<lambda>a b. - int (node_degree a) < - int (node_degree b) \<or>
                 (- int (node_degree a) = - int (node_degree b) \<and>
                  first_index ?L a < first_index ?L b))
               (sort_key (\<lambda>r. - int (node_degree r)) ?L)"
    by (rule sort_key_sorted_wrt)
  then show ?thesis
    unfolding search_ordered_def
    by (rule sorted_wrt_mono_rel [rotated]) (auto simp: search_order_def)
qed

text \<open>
  Claim C8, as amended.  For a query of at least two characters, within the pattern
  length SQLite accepts, the search returns the matching rows ordered by descending
  degree, up to the limit of ten: the first ten of the list that holds every matching
  row once, by descending degree, rows of equal degree in the order in which the engine
  visits them, whatever that order is.  For an engine that visits every row of the table
  the matching rows are the rows of the table whose label the pattern matches.
\<close>

theorem search_ordered_by_degree:
  assumes "2 \<le> length query"
    and "utf8_length (''%'' @ query @ ''%'') \<le> like_pattern_limit"
  shows "search_nodes scan d query = Inr (take 10 (search_ordered scan d query)) \<and>
         distinct (search_ordered scan d query) \<and>
         set (search_ordered scan d query) = set (search_matches scan d query) \<and>
         sorted_wrt (search_order (search_matches scan d query)) (search_ordered scan d query) \<and>
         (set (scan (nodes_tbl d)) = set (nodes_tbl d) \<longrightarrow>
            set (search_matches scan d query) =
              {r \<in> set (nodes_tbl d). like (''%'' @ query @ ''%'') (node_label r)})"
  using search_nodes_run [OF assms] search_ordered_rows [of scan d query]
    search_matches_ordered [of scan d query] search_matches_rows [of scan d query]
  by blast

text \<open>The theorem at the query \<^verbatim>\<open>node\<close> on three rows of equal degree.\<close>

theorem search_ordered_by_degree_witness:
  "(2::nat) \<le> length ''node'' \<and> utf8_length (''%'' @ ''node'' @ ''%'') \<le> like_pattern_limit \<and>
   set (id (nodes_tbl tie_db)) = set (nodes_tbl tie_db) \<and>
   search_nodes id tie_db ''node'' = Inr (take 10 (search_ordered id tie_db ''node'')) \<and>
   distinct (search_ordered id tie_db ''node'') \<and>
   set (search_ordered id tie_db ''node'') = set (search_matches id tie_db ''node'') \<and>
   sorted_wrt (search_order (search_matches id tie_db ''node'')) (search_ordered id tie_db ''node'') \<and>
   set (search_matches id tie_db ''node'') =
     {r \<in> set (nodes_tbl tie_db). like (''%'' @ ''node'' @ ''%'') (node_label r)}"
proof -
  have h: "(2::nat) \<le> length ''node''"
    "utf8_length (''%'' @ ''node'' @ ''%'') \<le> like_pattern_limit"
    by (simp_all add: utf8_length_def like_pattern_limit_def)
  have s: "set (id (nodes_tbl tie_db)) = set (nodes_tbl tie_db)" by simp
  from search_ordered_by_degree [of "''node''" id tie_db] h s show ?thesis by blast
qed

text \<open>
  Claim C8 as stated fails: on three rows of equal degree inserted as \<^verbatim>\<open>node_b\<close>,
  \<^verbatim>\<open>node_a\<close>, \<^verbatim>\<open>node_c\<close>, neither a scan in rowid order nor a scan in reverse rowid
  order returns the ids in ascending order.
\<close>

theorem search_tie_order_counterexample:
  "search_nodes id tie_db ''node'' =
     Inr [\<lparr>node_id = ''node_b'', node_label = ''node_b'', node_degree = 0\<rparr>,
          \<lparr>node_id = ''node_a'', node_label = ''node_a'', node_degree = 0\<rparr>,
          \<lparr>node_id = ''node_c'', node_label = ''node_c'', node_degree = 0\<rparr>] \<and>
   search_nodes rev tie_db ''node'' =
     Inr [\<lparr>node_id = ''node_c'', node_label = ''node_c'', node_degree = 0\<rparr>,
          \<lparr>node_id = ''node_a'', node_label = ''node_a'', node_degree = 0\<rparr>,
          \<lparr>node_id = ''node_b'', node_label = ''node_b'', node_degree = 0\<rparr>] \<and>
   \<not> ''node_b'' \<le> ''node_a'' \<and> \<not> ''node_c'' \<le> ''node_a''"
  by (simp add: search_nodes_def search_ordered_def search_matches_def like_def c_string_def
      utf8_length_def like_pattern_limit_def tie_db_def fresh_db_def ascii_lower_def)


section \<open>Expanding a node\<close>

lemma set_expand_node_edges:
  "set (snd (expand_node d q)) = set (incident_rows d q)"
  by (simp add: expand_node_def incident_rows_def Let_def)

lemma set_expand_node_nodes:
  "set (fst (expand_node d q)) =
     {n \<in> set (nodes_tbl d).
        node_id n \<in> neighbor_ids d q \<or> (node_id n = q \<and> incident_rows d q \<noteq> [])}"
proof -
  have "set (fst (expand_node d q)) =
          {n \<in> set (nodes_tbl d). \<exists>e\<in>set (incident_rows d q).
               node_id n = edge_target e \<or> node_id n = edge_source e}"
    by (auto simp: expand_node_def incident_rows_def Let_def)
  also have "\<dots> = {n \<in> set (nodes_tbl d).
        node_id n \<in> neighbor_ids d q \<or> (node_id n = q \<and> incident_rows d q \<noteq> [])}"
  proof (intro Collect_cong conj_cong refl iffI)
    fix n
    assume "\<exists>e\<in>set (incident_rows d q). node_id n = edge_target e \<or> node_id n = edge_source e"
    then obtain e where e: "e \<in> set (incident_rows d q)"
      and n: "node_id n = edge_target e \<or> node_id n = edge_source e" by blast
    from e have q: "edge_source e = q \<or> edge_target e = q"
      by (simp add: incident_rows_def)
    show "node_id n \<in> neighbor_ids d q \<or> (node_id n = q \<and> incident_rows d q \<noteq> [])"
    proof (cases "node_id n = q")
      case True
      with e show ?thesis by auto
    next
      case False
      with n q have "node_id n = (if edge_source e = q then edge_target e else edge_source e)"
        by auto
      with e show ?thesis by (auto simp: neighbor_ids_def)
    qed
  next
    fix n
    assume "node_id n \<in> neighbor_ids d q \<or> (node_id n = q \<and> incident_rows d q \<noteq> [])"
    then show "\<exists>e\<in>set (incident_rows d q). node_id n = edge_target e \<or> node_id n = edge_source e"
    proof
      assume "node_id n \<in> neighbor_ids d q"
      then show ?thesis by (auto simp: neighbor_ids_def split: if_splits)
    next
      assume a: "node_id n = q \<and> incident_rows d q \<noteq> []"
      then obtain e where e: "e \<in> set (incident_rows d q)"
        by (cases "incident_rows d q") auto
      then have "edge_source e = q \<or> edge_target e = q"
        by (simp add: incident_rows_def)
      with a have "node_id n = edge_target e \<or> node_id n = edge_source e"
        by auto
      with e show ?thesis by blast
    qed
  qed
  finally show ?thesis .
qed

text \<open>
  What \<^verbatim>\<open>expand_node\<close> returns, for every store and every id: the node rows whose id
  is the other end of an edge row at the id, the row of the id itself whenever it has
  an incident edge row, and the edge rows that have the id as source or target, each
  row once and with no budget.
\<close>

lemma expand_node_rows:
  "set (fst (expand_node d q)) =
     {n \<in> set (nodes_tbl d).
        node_id n \<in> neighbor_ids d q \<or> (node_id n = q \<and> incident_rows d q \<noteq> [])} \<and>
   set (snd (expand_node d q)) = set (incident_rows d q) \<and>
   distinct (fst (expand_node d q)) \<and> distinct (snd (expand_node d q))"
  using set_expand_node_nodes [of d q] set_expand_node_edges [of d q]
  by (simp add: expand_node_def Let_def)

text \<open>
  Claim C9: for an id present in the store, \<^verbatim>\<open>expand_node\<close> returns exactly the 1-hop
  neighbour nodes of the id and exactly the persisted edges at the id, with no budget.
  The docstring of \<^verbatim>\<open>expand_node\<close> says the same of the nodes, and the code departs
  from both: expanding \<^verbatim>\<open>b\<close> in the store of the path \<^verbatim>\<open>a -- b -- c\<close> returns the row
  of \<^verbatim>\<open>b\<close> itself next to those of its neighbours \<^verbatim>\<open>a\<close> and \<^verbatim>\<open>c\<close>, because the join
  takes both ends of every edge at the id.  The edges returned are the two at \<^verbatim>\<open>b\<close>.
\<close>

theorem expand_node_returns_own_row:
  "expand_node path_db ''b'' =
     ([\<lparr>node_id = ''a'', node_label = ''a'', node_degree = 1\<rparr>,
       \<lparr>node_id = ''b'', node_label = ''b'', node_degree = 2\<rparr>,
       \<lparr>node_id = ''c'', node_label = ''c'', node_degree = 1\<rparr>],
      [\<lparr>edge_id = 0, edge_source = ''a'', edge_target = ''b''\<rparr>,
       \<lparr>edge_id = 1, edge_source = ''b'', edge_target = ''c''\<rparr>]) \<and>
   neighbor_ids path_db ''b'' = {''a'', ''c''} \<and> ''b'' \<notin> neighbor_ids path_db ''b''"
  by (auto simp: expand_node_def path_db_def neighbor_ids_def incident_rows_def)

text \<open>The path store is the store a pass over the path graph leaves.\<close>

lemma path_db_ingested: "preprocess_graph nx_failing path_graph None = (Inr (), Some path_db)"
  by (simp add: preprocess_defs path_graph_def path_db_def)

end
